theory Spec2Isabelle
  imports Complex_Main "HOL-Library.Sublist" "HOL-Library.Multiset"
begin

chapter \<open>The program\<close>

section \<open>Strings of the C++ standard library\<close>

text \<open>
  A \<^verbatim>\<open>std::string\<close> is a \<^typ>\<open>string\<close>: a list of bytes. The character
  classification functions of \<^verbatim>\<open><cctype>\<close> are those of the "C" locale, which
  is the locale the extension runs in.
\<close>

definition isspace :: "char \<Rightarrow> bool" where
  "isspace c = (let n = (of_char c :: nat) in n = 32 \<or> (9 \<le> n \<and> n \<le> 13))"

definition tolower :: "char \<Rightarrow> char" where
  "tolower c = (let n = (of_char c :: nat) in if 65 \<le> n \<and> n \<le> 90 then char_of (n + 32) else c)"

text \<open>
  \<^verbatim>\<open>s.find(t, pos)\<close>: the least index \<open>i \<ge> pos\<close> at which \<open>t\<close> occurs in \<open>s\<close>;
  \<open>None\<close> is \<^verbatim>\<open>npos\<close>. The empty string occurs at every index up to the length.
\<close>

fun find_aux :: "string \<Rightarrow> string \<Rightarrow> nat \<Rightarrow> nat option" where
  "find_aux [] t i = (if t = [] then Some i else None)"
| "find_aux (c # cs) t i = (if prefix t (c # cs) then Some i else find_aux cs t (Suc i))"

definition str_find :: "string \<Rightarrow> string \<Rightarrow> nat \<Rightarrow> nat option" where
  "str_find s t pos = (if length s < pos then None else find_aux (drop pos s) t pos)"

text \<open>
  \<^verbatim>\<open>s.substr(pos, n)\<close> and \<^verbatim>\<open>s.substr(pos)\<close>. Every call in the modelled code has
  \<open>pos \<le> length s\<close>, so the \<^verbatim>\<open>std::out_of_range\<close> branch is never taken.
\<close>

definition substr :: "string \<Rightarrow> nat \<Rightarrow> nat \<Rightarrow> string" where
  "substr s pos n = take n (drop pos s)"

definition substr_from :: "string \<Rightarrow> nat \<Rightarrow> string" where
  "substr_from s pos = drop pos s"

section \<open>Doubles\<close>

text \<open>
  The code only compares doubles, takes the maximum of two of them and divides two of
  them. Comparison and \<^verbatim>\<open>std::max\<close> are exact on IEEE 754 values: a double is a NaN,
  an infinity or a finite number, and finite numbers compare as the reals they denote
  (\<open>-0.0\<close> and \<open>0.0\<close> compare equal and are identified here). Division rounds, so it
  is a parameter of the one function that divides.
\<close>

datatype double = NaN | NegInf | Finite real | PosInf

fun d_le :: "double \<Rightarrow> double \<Rightarrow> bool" where
  "d_le NaN b = False"
| "d_le a NaN = False"
| "d_le NegInf b = True"
| "d_le a PosInf = True"
| "d_le (Finite x) (Finite y) = (x \<le> y)"
| "d_le a b = False"

definition d_less :: "double \<Rightarrow> double \<Rightarrow> bool" where
  "d_less a b = (d_le a b \<and> \<not> d_le b a)"

definition d_ge0 :: "double \<Rightarrow> bool" where
  "d_ge0 a = d_le (Finite 0) a"

definition d_gt0 :: "double \<Rightarrow> bool" where
  "d_gt0 a = d_less (Finite 0) a"

definition std_max :: "double \<Rightarrow> double \<Rightarrow> double" where
  "std_max a b = (if d_less a b then b else a)"

section \<open>robots.txt rules (robots\_parser.hpp)\<close>

record RobotsRules =
  crawl_delay :: double
  request_rate :: double
  disallow :: "string list"
  allow :: "string list"

definition RobotsRules_default :: RobotsRules where
  "RobotsRules_default =
     \<lparr>crawl_delay = Finite (- 1), request_rate = Finite (- 1), disallow = [], allow = []\<rparr>"

definition HasCrawlDelay :: "RobotsRules \<Rightarrow> bool" where
  "HasCrawlDelay r = (d_ge0 (crawl_delay r) \<or> d_ge0 (request_rate r))"

definition GetEffectiveDelay :: "RobotsRules \<Rightarrow> double" where
  "GetEffectiveDelay r =
     (if d_ge0 (crawl_delay r) \<and> d_ge0 (request_rate r)
      then std_max (crawl_delay r) (request_rate r)
      else if d_ge0 (crawl_delay r) then crawl_delay r
      else if d_ge0 (request_rate r) then request_rate r
      else Finite (- 1))"

subsection \<open>RobotsParser::IsAllowed\<close>

text \<open>The two loops of \<^verbatim>\<open>IsAllowed\<close>; each returns whether the loop took its early return.\<close>

fun IsAllowed_allow_loop :: "string list \<Rightarrow> string \<Rightarrow> bool" where
  "IsAllowed_allow_loop [] path = False"
| "IsAllowed_allow_loop (a # as) path =
     (if str_find path a 0 = Some 0 then True else IsAllowed_allow_loop as path)"

fun IsAllowed_disallow_loop :: "string list \<Rightarrow> string \<Rightarrow> bool" where
  "IsAllowed_disallow_loop [] path = False"
| "IsAllowed_disallow_loop (d # ds) path =
     (if d = [] then IsAllowed_disallow_loop ds path
      else if str_find path d 0 = Some 0 then True
      else IsAllowed_disallow_loop ds path)"

definition IsAllowed :: "RobotsRules \<Rightarrow> string \<Rightarrow> bool" where
  "IsAllowed rules path =
     (if IsAllowed_allow_loop (allow rules) path then True
      else if IsAllowed_disallow_loop (disallow rules) path then False
      else True)"

subsection \<open>The path decision as the specification words it\<close>

text \<open>
  The specification's path decision, parametrised by the matching relation: the
  longest matching Allow rule wins over any Disallow rule, otherwise the longest
  matching Disallow rule denies, otherwise the path is allowed.
\<close>

fun spec_longest :: "string list \<Rightarrow> string option" where
  "spec_longest [] = None"
| "spec_longest (x # xs) =
     (case spec_longest xs of
        None \<Rightarrow> Some x
      | Some y \<Rightarrow> if length x < length y then Some y else Some x)"

definition spec_longest_match :: "(string \<Rightarrow> string \<Rightarrow> bool) \<Rightarrow> string list \<Rightarrow> string \<Rightarrow> string option" where
  "spec_longest_match m rs path = spec_longest (filter (\<lambda>r. m r path) rs)"

definition spec_path_decision :: "(string \<Rightarrow> string \<Rightarrow> bool) \<Rightarrow> string list \<Rightarrow> string list \<Rightarrow> string \<Rightarrow> bool" where
  "spec_path_decision m al dl path =
     (case spec_longest_match m al path of
        Some a \<Rightarrow> True
      | None \<Rightarrow> (case spec_longest_match m dl path of Some d \<Rightarrow> False | None \<Rightarrow> True))"

text \<open>Matching as the specification words it: by prefix, a trailing \<open>$\<close> anchoring the rule
  at the end of the path.\<close>

definition spec_rule_matches :: "string \<Rightarrow> string \<Rightarrow> bool" where
  "spec_rule_matches r path =
     (if r \<noteq> [] \<and> last r = CHR ''$'' then path = butlast r else prefix r path)"

definition spec_IsAllowed :: "RobotsRules \<Rightarrow> string \<Rightarrow> bool" where
  "spec_IsAllowed rules path = spec_path_decision spec_rule_matches (allow rules) (disallow rules) path"

section \<open>Fibonacci backoff (TODO.md, section 8.2)\<close>

text \<open>
  \<^verbatim>\<open>FibonacciBackoffSeconds\<close> works on C++ \<^verbatim>\<open>int\<close>s. Signed overflow is undefined
  behaviour: the model returns \<open>None\<close> where \<^verbatim>\<open>a + b\<close> or \<^verbatim>\<open>i++\<close> would leave the
  range of a 32-bit \<^verbatim>\<open>int\<close>.
\<close>

definition INT_MAX :: int where
  "INT_MAX = 2147483647"

function FibonacciBackoff_loop :: "int \<Rightarrow> int \<Rightarrow> int \<Rightarrow> int \<Rightarrow> int \<Rightarrow> int option" where
  "FibonacciBackoff_loop i n a b max_seconds =
     (if i \<le> n then
        (let temp = a + b in
         if INT_MAX < temp \<or> temp < - INT_MAX - 1 then None
         else if max_seconds < temp then Some max_seconds
         else if i = INT_MAX then None
         else FibonacciBackoff_loop (i + 1) n b temp max_seconds)
      else Some (min b max_seconds))"
  by pat_completeness auto
termination
  by (relation "measure (\<lambda>(i, n, a, b, m). nat (n + 1 - i))") auto

declare FibonacciBackoff_loop.simps [simp del]

definition FibonacciBackoffSeconds :: "int \<Rightarrow> int \<Rightarrow> int option" where
  "FibonacciBackoffSeconds n max_seconds =
     (if n \<le> 1 then Some 3 else FibonacciBackoff_loop 2 n 3 3 max_seconds)"

text \<open>The sequence that starts \<open>a = 3, b = 3\<close>, indexed from 0.\<close>

fun spec_fib3 :: "nat \<Rightarrow> int" where
  "spec_fib3 0 = 3"
| "spec_fib3 (Suc 0) = 3"
| "spec_fib3 (Suc (Suc k)) = spec_fib3 k + spec_fib3 (Suc k)"

text \<open>
  The delay that the documentation gives for the \<open>n\<close>-th consecutive error, \<open>n \<ge> 1\<close>:
  the \<open>n\<close>-th element of the sequence, the first being 3 and the second 3 (TODO.md,
  section 16.1: attempts 1, 2, 3, 4 wait 3, 3, 6, 9 seconds), capped.
\<close>

definition spec_backoff :: "int \<Rightarrow> int \<Rightarrow> int" where
  "spec_backoff n max_seconds = min (spec_fib3 (nat (n - 1))) max_seconds"

section \<open>robots.txt parser (robots\_parser.cpp)\<close>

subsection \<open>Helpers\<close>

text \<open>The two loops of \<^verbatim>\<open>Trim\<close>, on the indices \<^verbatim>\<open>start\<close> and \<^verbatim>\<open>end\<close>.\<close>

function Trim_start :: "string \<Rightarrow> nat \<Rightarrow> nat \<Rightarrow> nat" where
  "Trim_start str start end' =
     (if start < end' \<and> isspace (str ! start) then Trim_start str (Suc start) end' else start)"
  by pat_completeness auto
termination
  by (relation "measure (\<lambda>(str, start, end'). end' - start)") auto

function Trim_end :: "string \<Rightarrow> nat \<Rightarrow> nat \<Rightarrow> nat" where
  "Trim_end str start end' =
     (if start < end' \<and> isspace (str ! (end' - 1)) then Trim_end str start (end' - 1) else end')"
  by pat_completeness auto
termination
  by (relation "measure (\<lambda>(str, start, end'). end')") auto

declare Trim_start.simps [simp del] Trim_end.simps [simp del]

definition Trim :: "string \<Rightarrow> string" where
  "Trim str =
     (let start = Trim_start str 0 (length str);
          end' = Trim_end str start (length str)
      in substr str start (end' - start))"

definition ToLower :: "string \<Rightarrow> string" where
  "ToLower str = map tolower str"

definition StartsWithCaseInsensitive :: "string \<Rightarrow> string \<Rightarrow> bool" where
  "StartsWithCaseInsensitive str pre =
     (if length str < length pre then False
      else list_all (\<lambda>i. tolower (str ! i) = tolower (pre ! i)) [0..<length pre])"

definition ExtractValue :: "string \<Rightarrow> nat \<Rightarrow> string" where
  "ExtractValue line prefix_len = Trim (substr_from line prefix_len)"

text \<open>
  \<^verbatim>\<open>std::getline\<close> in a loop: the lines of the content, split at line feeds. A last
  line without a line feed is read too; nothing is read after a final line feed.
\<close>

fun getlines :: "string \<Rightarrow> string list" where
  "getlines [] = []"
| "getlines (c # cs) =
     (if c = CHR 0x0A then [] # getlines cs
      else (case getlines cs of [] \<Rightarrow> [[c]] | l # ls \<Rightarrow> (c # l) # ls))"

subsection \<open>RobotsParser::Parse\<close>

text \<open>
  \<^verbatim>\<open>std::unordered_map<std::string, RobotsRules>\<close> is a finite map. The pointer
  \<^verbatim>\<open>current_rules\<close> always points to the entry of a key of \<^verbatim>\<open>data.user_agents\<close> (entries
  are never erased and their addresses are stable), so it is the key, \<open>None\<close> for
  \<^verbatim>\<open>nullptr\<close>.
\<close>

record RobotsData =
  user_agents :: "string \<rightharpoonup> RobotsRules"
  sitemaps :: "string list"

record ParseState =
  data :: RobotsData
  current_user_agent :: string
  current_rules :: "string option"

definition update_current_rules :: "(RobotsRules \<Rightarrow> RobotsRules) \<Rightarrow> ParseState \<Rightarrow> ParseState" where
  "update_current_rules f st =
     (case current_rules st of
        None \<Rightarrow> st
      | Some k \<Rightarrow>
          (case user_agents (data st) k of
             None \<Rightarrow> st
           | Some r \<Rightarrow> st\<lparr>data := (data st)\<lparr>user_agents := (user_agents (data st))(k \<mapsto> f r)\<rparr>\<rparr>))"

text \<open>
  One iteration of the loop of \<^verbatim>\<open>Parse\<close>. \<^verbatim>\<open>std::stod\<close> is a parameter: \<open>None\<close> when
  it throws, which the code catches and ignores. \<open>fdiv\<close> is the division of doubles.
\<close>

definition Parse_line :: "(string \<Rightarrow> double option) \<Rightarrow> (double \<Rightarrow> double \<Rightarrow> double) \<Rightarrow> ParseState \<Rightarrow> string \<Rightarrow> ParseState" where
  "Parse_line stod fdiv st line0 =
     (let line = Trim line0 in
      if line = [] \<or> hd line = CHR ''#'' then st
      else if StartsWithCaseInsensitive line ''user-agent:'' then
        (let ua = ToLower (ExtractValue line 11) in
         if ua \<noteq> [] then
           st\<lparr>data := (if user_agents (data st) ua = None
                       then (data st)\<lparr>user_agents := (user_agents (data st))(ua \<mapsto> RobotsRules_default)\<rparr>
                       else data st),
              current_user_agent := ua,
              current_rules := Some ua\<rparr>
         else st)
      else if StartsWithCaseInsensitive line ''crawl-delay:'' \<and> current_rules st \<noteq> None then
        (case stod (ExtractValue line 12) of
           None \<Rightarrow> st
         | Some delay \<Rightarrow>
             if d_ge0 delay then update_current_rules (\<lambda>r. r\<lparr>crawl_delay := delay\<rparr>) st else st)
      else if StartsWithCaseInsensitive line ''request-rate:'' \<and> current_rules st \<noteq> None then
        (let rate_str = ExtractValue line 13 in
         case str_find rate_str ''/'' 0 of
           None \<Rightarrow> st
         | Some slash_pos \<Rightarrow>
             (case stod (substr rate_str 0 slash_pos) of
                None \<Rightarrow> st
              | Some n \<Rightarrow>
                  (case stod (substr_from rate_str (slash_pos + 1)) of
                     None \<Rightarrow> st
                   | Some m \<Rightarrow>
                       if d_gt0 n \<and> d_gt0 m
                       then update_current_rules (\<lambda>r. r\<lparr>request_rate := fdiv m n\<rparr>) st
                       else st)))
      else if StartsWithCaseInsensitive line ''disallow:'' \<and> current_rules st \<noteq> None then
        (let path = ExtractValue line 9 in
         if path \<noteq> [] then update_current_rules (\<lambda>r. r\<lparr>disallow := disallow r @ [path]\<rparr>) st else st)
      else if StartsWithCaseInsensitive line ''allow:'' \<and> current_rules st \<noteq> None then
        (let path = ExtractValue line 6 in
         if path \<noteq> [] then update_current_rules (\<lambda>r. r\<lparr>allow := allow r @ [path]\<rparr>) st else st)
      else if StartsWithCaseInsensitive line ''sitemap:'' then
        (let url = ExtractValue line 8 in
         if url \<noteq> [] then st\<lparr>data := (data st)\<lparr>sitemaps := sitemaps (data st) @ [url]\<rparr>\<rparr> else st)
      else st)"

definition Parse_init :: ParseState where
  "Parse_init = \<lparr>data = \<lparr>user_agents = Map.empty, sitemaps = []\<rparr>,
                 current_user_agent = [], current_rules = None\<rparr>"

definition Parse_lines :: "(string \<Rightarrow> double option) \<Rightarrow> (double \<Rightarrow> double \<Rightarrow> double) \<Rightarrow> string list \<Rightarrow> ParseState" where
  "Parse_lines stod fdiv ls = foldl (Parse_line stod fdiv) Parse_init ls"

definition Parse :: "(string \<Rightarrow> double option) \<Rightarrow> (double \<Rightarrow> double \<Rightarrow> double) \<Rightarrow> string \<Rightarrow> RobotsData" where
  "Parse stod fdiv robots_txt_content = data (Parse_lines stod fdiv (getlines robots_txt_content))"

subsection \<open>RobotsParser::GetRulesForUserAgent\<close>

text \<open>
  The order in which a range-for visits an \<^verbatim>\<open>std::unordered_map\<close> is unspecified. It
  is the parameter \<open>iteration\<close>: the keys of \<^verbatim>\<open>data.user_agents\<close> in the order of the
  iteration.
\<close>

fun prefix_match_loop :: "string list \<Rightarrow> (string \<rightharpoonup> RobotsRules) \<Rightarrow> string \<Rightarrow> RobotsRules option" where
  "prefix_match_loop [] m ua_lower = None"
| "prefix_match_loop (k # ks) m ua_lower =
     (case m k of
        None \<Rightarrow> prefix_match_loop ks m ua_lower
      | Some r \<Rightarrow>
          if k \<noteq> ''*'' \<and> str_find ua_lower k 0 = Some 0 then Some r
          else prefix_match_loop ks m ua_lower)"

definition GetRulesForUserAgent :: "string list \<Rightarrow> RobotsData \<Rightarrow> string \<Rightarrow> RobotsRules" where
  "GetRulesForUserAgent iteration d user_agent =
     (let ua_lower = ToLower user_agent in
      case user_agents d ua_lower of
        Some r \<Rightarrow> r
      | None \<Rightarrow>
          (case prefix_match_loop iteration (user_agents d) ua_lower of
             Some r \<Rightarrow> r
           | None \<Rightarrow>
               (case user_agents d ''*'' of
                  Some r \<Rightarrow> r
                | None \<Rightarrow> RobotsRules_default)))"

text \<open>The user-agent selection as the specification words it: exact match, then the
  longest key that is a prefix of the lowercased user-agent, then \<open>*\<close>, then empty rules.\<close>

definition spec_GetRules :: "string list \<Rightarrow> RobotsData \<Rightarrow> string \<Rightarrow> RobotsRules" where
  "spec_GetRules keys d user_agent =
     (let ua_lower = ToLower user_agent in
      case user_agents d ua_lower of
        Some r \<Rightarrow> r
      | None \<Rightarrow>
          (case spec_longest (filter (\<lambda>k. user_agents d k \<noteq> None \<and> prefix k ua_lower) keys) of
             Some k \<Rightarrow> the (user_agents d k)
           | None \<Rightarrow>
               (case user_agents d ''*'' of
                  Some r \<Rightarrow> r
                | None \<Rightarrow> RobotsRules_default)))"

text \<open>Lines, for statements about the content line by line.\<close>

definition join_lines :: "string list \<Rightarrow> string" where
  "join_lines ls = concat (map (\<lambda>l. l @ [CHR 0x0A]) ls)"

definition is_user_agent_line :: "string \<Rightarrow> bool" where
  "is_user_agent_line l = StartsWithCaseInsensitive (Trim l) ''user-agent:''"

definition is_rule_line :: "string \<Rightarrow> bool" where
  "is_rule_line l =
     (StartsWithCaseInsensitive (Trim l) ''crawl-delay:''
      \<or> StartsWithCaseInsensitive (Trim l) ''request-rate:''
      \<or> StartsWithCaseInsensitive (Trim l) ''disallow:''
      \<or> StartsWithCaseInsensitive (Trim l) ''allow:'')"

text \<open>The lines with the rule lines before the first User-agent line removed.\<close>

fun drop_early_rules :: "string list \<Rightarrow> string list" where
  "drop_early_rules [] = []"
| "drop_early_rules (l # ls) =
     (if is_user_agent_line l then l # ls
      else if is_rule_line l then drop_early_rules ls
      else l # drop_early_rules ls)"

section \<open>The URL queue (thread\_utils.hpp and its implementation)\<close>

text \<open>
  \<^verbatim>\<open>earliest_fetch\<close> is a \<^verbatim>\<open>steady_clock::time_point\<close>: a count of clock ticks.
\<close>

record UrlQueueEntry =
  url :: string
  retry_count :: int
  is_update :: bool
  earliest_fetch :: int

text \<open>\<^verbatim>\<open>UrlQueueEntry::operator>\<close>, which is what \<^verbatim>\<open>std::greater<UrlQueueEntry>\<close> calls.\<close>

definition entry_greater :: "UrlQueueEntry \<Rightarrow> UrlQueueEntry \<Rightarrow> bool" where
  "entry_greater a b = (earliest_fetch b < earliest_fetch a)"

subsection \<open>std::priority\_queue over std::vector\<close>

text \<open>
  \<^verbatim>\<open>std::priority_queue<UrlQueueEntry, std::vector<UrlQueueEntry>, std::greater<UrlQueueEntry>>\<close>
  keeps its vector as a binary heap: \<^verbatim>\<open>push\<close> is \<^verbatim>\<open>push_back\<close> then \<^verbatim>\<open>std::push_heap\<close>,
  \<^verbatim>\<open>pop\<close> is \<^verbatim>\<open>std::pop_heap\<close> then \<^verbatim>\<open>pop_back\<close>, \<^verbatim>\<open>top\<close> is \<^verbatim>\<open>front\<close>. The heap
  functions are those of libstdc++ (\<^verbatim>\<open>bits/stl_heap.h\<close>): \<^verbatim>\<open>__push_heap\<close> moves a hole up
  from \<^verbatim>\<open>holeIndex\<close> while the parent compares greater than the value;
  \<^verbatim>\<open>__adjust_heap\<close> moves the hole down to a leaf along the children that do not compare
  greater than their sibling, then pushes the value up from there.
\<close>

function push_heap_loop :: "UrlQueueEntry list \<Rightarrow> nat \<Rightarrow> nat \<Rightarrow> UrlQueueEntry \<Rightarrow> UrlQueueEntry list" where
  "push_heap_loop first holeIndex topIndex v =
     (let parent = (holeIndex - 1) div 2 in
      if topIndex < holeIndex \<and> entry_greater (first ! parent) v
      then push_heap_loop (first[holeIndex := first ! parent]) parent topIndex v
      else first[holeIndex := v])"
  by pat_completeness auto
termination
  by (relation "measure (\<lambda>(first, holeIndex, topIndex, v). holeIndex)") auto

declare push_heap_loop.simps [simp del]

definition push_heap :: "UrlQueueEntry list \<Rightarrow> UrlQueueEntry list" where
  "push_heap c = (if c = [] then c else push_heap_loop c (length c - 1) 0 (c ! (length c - 1)))"

function adjust_heap_loop :: "UrlQueueEntry list \<Rightarrow> nat \<Rightarrow> nat \<Rightarrow> nat \<Rightarrow> UrlQueueEntry list \<times> nat \<times> nat" where
  "adjust_heap_loop first holeIndex secondChild len =
     (if secondChild < (len - 1) div 2 then
        (let sc = 2 * (secondChild + 1);
             sc' = (if entry_greater (first ! sc) (first ! (sc - 1)) then sc - 1 else sc)
         in adjust_heap_loop (first[holeIndex := first ! sc']) sc' sc' len)
      else (first, holeIndex, secondChild))"
  by pat_completeness auto
termination
  by (relation "measure (\<lambda>(first, holeIndex, secondChild, len). len - secondChild)") auto

declare adjust_heap_loop.simps [simp del]

definition adjust_heap :: "UrlQueueEntry list \<Rightarrow> nat \<Rightarrow> nat \<Rightarrow> UrlQueueEntry \<Rightarrow> UrlQueueEntry list" where
  "adjust_heap first holeIndex len v =
     (case adjust_heap_loop first holeIndex holeIndex len of
        (first1, hole1, sc1) \<Rightarrow>
          if len mod 2 = 0 \<and> 2 \<le> len \<and> sc1 = (len - 2) div 2
          then push_heap_loop (first1[hole1 := first1 ! (2 * (sc1 + 1) - 1)]) (2 * (sc1 + 1) - 1) holeIndex v
          else push_heap_loop first1 hole1 holeIndex v)"

definition pop_heap :: "UrlQueueEntry list \<Rightarrow> UrlQueueEntry list" where
  "pop_heap c =
     (if 1 < length c
      then adjust_heap (c[length c - 1 := c ! 0]) 0 (length c - 1) (c ! (length c - 1))
      else c)"

definition pq_push :: "UrlQueueEntry list \<Rightarrow> UrlQueueEntry \<Rightarrow> UrlQueueEntry list" where
  "pq_push c x = push_heap (c @ [x])"

definition pq_pop :: "UrlQueueEntry list \<Rightarrow> UrlQueueEntry list" where
  "pq_pop c = butlast (pop_heap c)"

subsection \<open>ThreadSafeUrlQueue\<close>

text \<open>
  Every member function runs under \<^verbatim>\<open>mutex_\<close>, so each is one atomic step on the state
  of the members \<^verbatim>\<open>queue_\<close> and \<^verbatim>\<open>shutdown_\<close> (\<open>queue_m\<close> and \<open>shutdown_m\<close> here: a
  name cannot end with an underscore). A pop returns the entry it assigns, \<open>None\<close> when it returns
  \<^verbatim>\<open>false\<close>. The entry moved out of \<^verbatim>\<open>queue_.top()\<close> keeps its \<^verbatim>\<open>earliest_fetch\<close>, which is
  all that \<^verbatim>\<open>pop\<close> compares.
\<close>

record ThreadSafeUrlQueue =
  queue_m :: "UrlQueueEntry list"
  shutdown_m :: bool

definition empty_queue :: ThreadSafeUrlQueue where
  "empty_queue = \<lparr>queue_m = [], shutdown_m = False\<rparr>"

definition Push :: "ThreadSafeUrlQueue \<Rightarrow> UrlQueueEntry \<Rightarrow> ThreadSafeUrlQueue" where
  "Push q entry = q\<lparr>queue_m := pq_push (queue_m q) entry\<rparr>"

definition TryPop :: "ThreadSafeUrlQueue \<Rightarrow> UrlQueueEntry option \<times> ThreadSafeUrlQueue" where
  "TryPop q =
     (if queue_m q = [] then (None, q)
      else (Some (queue_m q ! 0), q\<lparr>queue_m := pq_pop (queue_m q)\<rparr>))"

text \<open>
  \<^verbatim>\<open>cv_.wait_for(lock, timeout, pred)\<close> evaluates \<^verbatim>\<open>pred\<close> under the mutex. When it is
  true, \<^verbatim>\<open>wait_for\<close> returns \<^verbatim>\<open>true\<close> without waiting. When it is false and the time is
  out, \<^verbatim>\<open>wait_for\<close> returns \<^verbatim>\<open>false\<close>. Otherwise the thread releases the mutex and
  blocks on \<^verbatim>\<open>cv_\<close>, until \<^verbatim>\<open>notify_one\<close>, \<^verbatim>\<open>notify_all\<close> or the end of the timeout
  unblocks it; it then takes the mutex and evaluates \<^verbatim>\<open>pred\<close> again, on the state that
  the other threads have left. \<open>wait_for\<close> is one such evaluation: \<open>time_out\<close> says whether
  the timeout has passed, and \<open>q\<close> is the state at that moment.
\<close>

datatype wait_for_result = Wait_blocks | Wait_returns bool

definition wait_pred :: "ThreadSafeUrlQueue \<Rightarrow> bool" where
  "wait_pred q = (queue_m q \<noteq> [] \<or> shutdown_m q)"

definition wait_for :: "bool \<Rightarrow> ThreadSafeUrlQueue \<Rightarrow> wait_for_result" where
  "wait_for time_out q =
     (if wait_pred q then Wait_returns True
      else if time_out then Wait_returns False
      else Wait_blocks)"

text \<open>
  \<^verbatim>\<open>WaitAndPop\<close>, from one evaluation of the predicate on: by a thread that calls it, or
  by a thread that waited in it and has been unblocked. \<open>Pop_waits\<close> says that the thread
  blocks (again) and has not returned; the state is then unchanged.
\<close>

datatype pop_outcome = Pop_waits | Pop_returns "UrlQueueEntry option"

definition WaitAndPop :: "bool \<Rightarrow> ThreadSafeUrlQueue \<Rightarrow> pop_outcome \<times> ThreadSafeUrlQueue" where
  "WaitAndPop time_out q =
     (if wait_for time_out q = Wait_blocks then (Pop_waits, q)
      else if wait_for time_out q = Wait_returns False then (Pop_returns None, q)
      else if shutdown_m q \<and> queue_m q = [] then (Pop_returns None, q)
      else (Pop_returns (Some (queue_m q ! 0)), q\<lparr>queue_m := pq_pop (queue_m q)\<rparr>))"

definition Shutdown :: "ThreadSafeUrlQueue \<Rightarrow> ThreadSafeUrlQueue" where
  "Shutdown q = q\<lparr>shutdown_m := True\<rparr>"

definition Empty :: "ThreadSafeUrlQueue \<Rightarrow> bool" where
  "Empty q = (queue_m q = [])"

definition Size :: "ThreadSafeUrlQueue \<Rightarrow> nat" where
  "Size q = length (queue_m q)"

text \<open>
  Sequences of steps on one queue, by any threads: each step is a call of a member
  function or, for \<open>OpWaitAndPop\<close>, one evaluation of the predicate by a thread in
  \<^verbatim>\<open>WaitAndPop\<close>. \<^verbatim>\<open>cv_.notify_one()\<close> in \<^verbatim>\<open>Push\<close> and \<^verbatim>\<open>cv_.notify_all()\<close> in
  \<^verbatim>\<open>Shutdown\<close> change no member: they unblock threads that wait, and the evaluation
  that an unblocked thread makes is a later step of the run.
\<close>

datatype queue_op = OpPush UrlQueueEntry | OpTryPop | OpWaitAndPop bool | OpShutdown

fun queue_step :: "ThreadSafeUrlQueue \<Rightarrow> queue_op \<Rightarrow> ThreadSafeUrlQueue" where
  "queue_step q (OpPush e) = Push q e"
| "queue_step q OpTryPop = snd (TryPop q)"
| "queue_step q (OpWaitAndPop time_out) = snd (WaitAndPop time_out q)"
| "queue_step q OpShutdown = Shutdown q"

definition queue_run :: "ThreadSafeUrlQueue \<Rightarrow> queue_op list \<Rightarrow> ThreadSafeUrlQueue" where
  "queue_run q ops = foldl queue_step q ops"

text \<open>The entries that successive pops return, until the queue is empty.\<close>

fun pop_all :: "nat \<Rightarrow> ThreadSafeUrlQueue \<Rightarrow> UrlQueueEntry list" where
  "pop_all 0 q = []"
| "pop_all (Suc n) q =
     (case TryPop q of (None, q') \<Rightarrow> [] | (Some e, q') \<Rightarrow> e # pop_all n q')"

definition is_heap :: "UrlQueueEntry list \<Rightarrow> nat \<Rightarrow> bool" where
  "is_heap h n = (\<forall>i. 0 < i \<and> i < n \<longrightarrow> earliest_fetch (h ! ((i - 1) div 2)) \<le> earliest_fetch (h ! i))"

text \<open>
  The vector with a hole: the heap order holds on every edge that does not touch the
  hole, and the parent of the hole is not above the children of the hole.
\<close>

definition heap_except :: "UrlQueueEntry list \<Rightarrow> nat \<Rightarrow> nat \<Rightarrow> bool" where
  "heap_except h n hole =
     ((\<forall>i. 0 < i \<and> i < n \<and> i \<noteq> hole \<and> (i - 1) div 2 \<noteq> hole \<longrightarrow>
          earliest_fetch (h ! ((i - 1) div 2)) \<le> earliest_fetch (h ! i))
      \<and> (0 < hole \<longrightarrow>
          (\<forall>i. 0 < i \<and> i < n \<and> (i - 1) div 2 = hole \<longrightarrow>
             earliest_fetch (h ! ((hole - 1) div 2)) \<le> earliest_fetch (h ! i))))"

text \<open>The state of a queue that holds a heap.\<close>

definition queue_inv :: "ThreadSafeUrlQueue \<Rightarrow> bool" where
  "queue_inv q = is_heap (queue_m q) (length (queue_m q))"

section \<open>Sitemap parser (sitemap\_parser.hpp, sitemap\_parser.cpp)\<close>







lemma find_aux_ge: "find_aux s t i = Some k \<Longrightarrow> i \<le> k"
  by (induction s arbitrary: i) (auto split: if_splits dest: Suc_leD)
















section \<open>The robots step of the fetch pipeline\<close>

text \<open>
  Modelled from the spec: the fetch pipeline of the CRAWL statement, whose implementation
  (the table function that \<^verbatim>\<open>crawler_function.hpp\<close> declares, with its \<^verbatim>\<open>log_skipped\<close>
  option) is missing. The specification, section 4.7, step 4: "Consult robots: if
  disallowed and \<^verbatim>\<open>respect_robots_txt\<close>, emit a synthetic record (status -1) and
  continue"; section 7: "Robots-disallow: row emitted with synthetic
  \<^verbatim>\<open>http_status = -1\<close> if \<^verbatim>\<open>log_skipped\<close>; otherwise suppressed"; scenario S6 gives the
  row the error type \<^verbatim>\<open>ROBOTS_DISALLOWED\<close>. Both options default to true (section 6). Of
  the result record only the fields that these sentences speak of are kept. The path
  decision is \<^verbatim>\<open>RobotsParser::IsAllowed\<close> as defined above, on the rules that the domain
  state holds for the user-agent.
\<close>

datatype error_class =
  NONE | NETWORK_TIMEOUT | NETWORK_DNS | NETWORK_CONNECTION | NETWORK_TLS
  | HTTP_CLIENT_4XX | HTTP_SERVER_5XX | HTTP_RATE_LIMITED | ROBOTS_DISALLOWED
  | CONTENT_TOO_LARGE | CONTENT_TYPE_REJECTED | REDIRECT_LOOP | PARSE_ERROR | INTERRUPTED

record result_record =
  rec_url :: string
  http_status :: int
  error_type :: error_class

record crawl_options =
  respect_robots_txt :: bool
  log_skipped :: bool

definition default_options :: crawl_options where
  "default_options = \<lparr>respect_robots_txt = True, log_skipped = True\<rparr>"

text \<open>
  Modelled from the spec: the pipeline for one queue entry, as far as the robots step
  decides it (the implementation is missing, see above). \<open>rules\<close> are the rules of the
  domain of the URL, \<open>path\<close> is the path of the URL, and \<open>later_steps\<close> stands for the
  steps 5 to 11, which are not modelled: it gives the rows that they emit for the URL.
\<close>

definition fetch_pipeline :: "crawl_options \<Rightarrow> RobotsRules \<Rightarrow> (string \<Rightarrow> result_record list) \<Rightarrow> string \<Rightarrow> string \<Rightarrow> result_record list" where
  "fetch_pipeline opts rules later_steps u path =
     (if respect_robots_txt opts \<and> \<not> IsAllowed rules path then
        (if log_skipped opts
         then [\<lparr>rec_url = u, http_status = - 1, error_type = ROBOTS_DISALLOWED\<rparr>]
         else [])
      else map (\<lambda>r. r\<lparr>rec_url := u\<rparr>) (later_steps u))"

text \<open>
  Modelled from the spec: the rows of a crawl of the URLs \<open>us\<close> (the implementation is
  missing, see above); \<open>rules_of\<close> gives the rules of the domain of a URL and \<open>path_of\<close>
  its path.
\<close>

definition crawl_rows :: "crawl_options \<Rightarrow> (string \<Rightarrow> RobotsRules) \<Rightarrow> (string \<Rightarrow> string) \<Rightarrow> (string \<Rightarrow> result_record list) \<Rightarrow> string list \<Rightarrow> result_record list" where
  "crawl_rows opts rules_of path_of later_steps us =
     concat (map (\<lambda>u. fetch_pipeline opts (rules_of u) later_steps u (path_of u)) us)"

chapter \<open>Verification\<close>

section \<open>Facts about the string functions\<close>

lemma find_aux_here: "find_aux s t i = Some i \<longleftrightarrow> prefix t s"
proof (cases s)
  case Nil
  then show ?thesis by auto
next
  case (Cons c cs)
  have "find_aux cs t (Suc i) \<noteq> Some i"
    using find_aux_ge [of cs t "Suc i" i] by auto
  with Cons show ?thesis by auto
qed

lemma str_find_0: "str_find s t 0 = Some 0 \<longleftrightarrow> prefix t s"
  by (simp add: str_find_def find_aux_here)

section \<open>Path decision\<close>

lemma spec_longest_None: "spec_longest xs = None \<longleftrightarrow> xs = []"
  by (cases xs) (auto split: option.splits)

lemma IsAllowed_allow_loop_iff: "IsAllowed_allow_loop al path \<longleftrightarrow> (\<exists>a \<in> set al. prefix a path)"
  by (induction al) (auto simp: str_find_0)

lemma IsAllowed_disallow_loop_iff:
  "IsAllowed_disallow_loop dl path \<longleftrightarrow> (\<exists>d \<in> set dl. d \<noteq> [] \<and> prefix d path)"
  by (induction dl) (auto simp: str_find_0)

lemma spec_longest_match_None: "spec_longest_match m rs path = None \<longleftrightarrow> (\<forall>r \<in> set rs. \<not> m r path)"
  by (simp add: spec_longest_match_def spec_longest_None filter_empty_conv)

text \<open>
  Claim C1, as the code has it. \<^verbatim>\<open>RobotsParser::IsAllowed\<close> decides a path by the
  specification's rule -- the spec_longest matching Allow wins over any Disallow, otherwise
  the spec_longest matching Disallow denies, otherwise the path is allowed -- where a rule
  matches when it is a plain prefix of the path (a \<open>$\<close> is an ordinary character) and
  empty Disallow entries are skipped.
\<close>

theorem IsAllowed_path_decision:
  "IsAllowed rules path =
     spec_path_decision prefix (allow rules) (filter (\<lambda>d. d \<noteq> []) (disallow rules)) path"
proof -
  have a: "IsAllowed_allow_loop (allow rules) path \<longleftrightarrow> spec_longest_match prefix (allow rules) path \<noteq> None"
    by (simp add: IsAllowed_allow_loop_iff spec_longest_match_None)
  have d: "IsAllowed_disallow_loop (disallow rules) path \<longleftrightarrow>
      spec_longest_match prefix (filter (\<lambda>d. d \<noteq> []) (disallow rules)) path \<noteq> None"
    by (auto simp: IsAllowed_disallow_loop_iff spec_longest_match_None)
  show ?thesis
    unfolding IsAllowed_def spec_path_decision_def using a d
    by (auto split: option.splits)
qed

theorem IsAllowed_path_decision_witness:
  "IsAllowed \<lparr>crawl_delay = Finite (- 1), request_rate = Finite (- 1),
       disallow = [''/private'', ''''], allow = [''/private/ok'']\<rparr> ''/private/x'' = False"
  by (simp add: IsAllowed_path_decision [of _ "''/private/x''"]
      spec_path_decision_def spec_longest_match_def)

text \<open>
  The claim as stated fails: a Disallow rule \<open>/page$\<close> denies the path \<open>/page\<close> in the
  specification's decision, and the code allows it; an empty Disallow entry is a prefix
  of every path, and the code skips it.
\<close>

theorem IsAllowed_anchor_counterexample:
  "IsAllowed \<lparr>crawl_delay = Finite (- 1), request_rate = Finite (- 1),
       disallow = [''/page$''], allow = []\<rparr> ''/page'' = True
   \<and> spec_IsAllowed \<lparr>crawl_delay = Finite (- 1), request_rate = Finite (- 1),
       disallow = [''/page$''], allow = []\<rparr> ''/page'' = False
   \<and> IsAllowed \<lparr>crawl_delay = Finite (- 1), request_rate = Finite (- 1),
       disallow = [''''], allow = []\<rparr> ''/x'' = True
   \<and> spec_IsAllowed \<lparr>crawl_delay = Finite (- 1), request_rate = Finite (- 1),
       disallow = [''''], allow = []\<rparr> ''/x'' = False"
  by (simp add: IsAllowed_def spec_IsAllowed_def spec_path_decision_def spec_longest_match_def
      spec_rule_matches_def str_find_def)

section \<open>Effective delay\<close>

lemma d_le_refl: "a \<noteq> NaN \<Longrightarrow> d_le a a"
  by (cases a) auto

lemma d_le_total: "a \<noteq> NaN \<Longrightarrow> b \<noteq> NaN \<Longrightarrow> d_le a b \<or> d_le b a"
  by (cases a; cases b) auto

lemma d_ge0_not_NaN: "d_ge0 a \<Longrightarrow> a \<noteq> NaN"
  by (auto simp: d_ge0_def)

text \<open>
  Claim C9. When both \<^verbatim>\<open>crawl_delay\<close> and \<^verbatim>\<open>request_rate\<close> are set (non-negative),
  \<^verbatim>\<open>GetEffectiveDelay\<close> returns the stricter of the two: one of them, and at least as
  large as both. When only one is set, that one is returned.
\<close>

theorem GetEffectiveDelay_stricter:
  "(d_ge0 (crawl_delay r) \<and> d_ge0 (request_rate r) \<longrightarrow>
      (GetEffectiveDelay r = crawl_delay r \<or> GetEffectiveDelay r = request_rate r)
      \<and> d_le (crawl_delay r) (GetEffectiveDelay r)
      \<and> d_le (request_rate r) (GetEffectiveDelay r))
   \<and> (d_ge0 (crawl_delay r) \<and> \<not> d_ge0 (request_rate r) \<longrightarrow> GetEffectiveDelay r = crawl_delay r)
   \<and> (\<not> d_ge0 (crawl_delay r) \<and> d_ge0 (request_rate r) \<longrightarrow> GetEffectiveDelay r = request_rate r)"
proof -
  have both: "(std_max a b = a \<or> std_max a b = b) \<and> d_le a (std_max a b) \<and> d_le b (std_max a b)"
    if "d_ge0 a" "d_ge0 b" for a b
  proof -
    from that have n: "a \<noteq> NaN" "b \<noteq> NaN" by (auto dest: d_ge0_not_NaN)
    show ?thesis
      using d_le_total [OF n] d_le_refl [OF n(1)] d_le_refl [OF n(2)]
      by (auto simp: std_max_def d_less_def)
  qed
  show ?thesis
    using both [of "crawl_delay r" "request_rate r"] by (simp add: GetEffectiveDelay_def)
qed

theorem GetEffectiveDelay_stricter_witness:
  "GetEffectiveDelay \<lparr>crawl_delay = Finite 2, request_rate = Finite 5, disallow = [], allow = []\<rparr> = Finite 5
   \<and> GetEffectiveDelay \<lparr>crawl_delay = Finite 2, request_rate = Finite (- 1), disallow = [], allow = []\<rparr> = Finite 2
   \<and> GetEffectiveDelay \<lparr>crawl_delay = Finite (- 1), request_rate = PosInf, disallow = [], allow = []\<rparr> = PosInf"
  using GetEffectiveDelay_stricter [of "\<lparr>crawl_delay = Finite 2, request_rate = Finite 5, disallow = [], allow = []\<rparr>"]
    GetEffectiveDelay_stricter [of "\<lparr>crawl_delay = Finite 2, request_rate = Finite (- 1), disallow = [], allow = []\<rparr>"]
    GetEffectiveDelay_stricter [of "\<lparr>crawl_delay = Finite (- 1), request_rate = PosInf, disallow = [], allow = []\<rparr>"]
  by (auto simp: d_ge0_def)

section \<open>Fibonacci backoff\<close>

lemma spec_fib3_ge: "int k + 2 \<le> spec_fib3 k"
  by (induction k rule: spec_fib3.induct) auto

lemma spec_fib3_pos: "0 < spec_fib3 k"
  using spec_fib3_ge [of k] by linarith

lemma spec_fib3_Suc_mono: "spec_fib3 k \<le> spec_fib3 (Suc k)"
  by (cases k) (use spec_fib3_pos in \<open>auto simp: less_imp_le\<close>)

lemma spec_fib3_mono: "k \<le> m \<Longrightarrow> spec_fib3 k \<le> spec_fib3 m"
  by (rule lift_Suc_mono_le [of spec_fib3]) (auto simp: spec_fib3_Suc_mono)

lemma spec_fib3_step: "1 \<le> k \<Longrightarrow> spec_fib3 (k - 1) + spec_fib3 k = spec_fib3 (Suc k)"
  by (cases k) auto

lemma FibonacciBackoff_loop_fib3:
  assumes cap: "cap \<le> 1073741823"
  shows "1 \<le> k \<Longrightarrow> k \<le> m \<Longrightarrow> spec_fib3 k \<le> cap \<Longrightarrow>
    FibonacciBackoff_loop (int k + 1) (int m) (spec_fib3 (k - 1)) (spec_fib3 k) cap = Some (min (spec_fib3 m) cap)"
proof (induction "m - k" arbitrary: k)
  case 0
  then have "k = m" by simp
  then show ?case
    by (subst FibonacciBackoff_loop.simps) simp
next
  case (Suc d)
  then have km: "Suc k \<le> m" by simp
  have st: "spec_fib3 (k - 1) + spec_fib3 k = spec_fib3 (Suc k)"
    using Suc.prems(1) by (rule spec_fib3_step)
  have le: "spec_fib3 (k - 1) \<le> spec_fib3 k"
    by (rule spec_fib3_mono) simp
  have nov: "\<not> (INT_MAX < spec_fib3 (Suc k) \<or> spec_fib3 (Suc k) < - INT_MAX - 1)"
    using st le Suc.prems(3) cap spec_fib3_pos [of "Suc k"] by (simp add: INT_MAX_def)
  show ?case
  proof (cases "cap < spec_fib3 (Suc k)")
    case True
    then have "cap < spec_fib3 m"
      using spec_fib3_mono [OF km] by linarith
    with True nov km st show ?thesis
      by (subst FibonacciBackoff_loop.simps) (simp add: Let_def)
  next
    case False
    then have "int k + 3 \<le> cap"
      using spec_fib3_ge [of "Suc k"] by simp
    then have ni: "int k + 1 \<noteq> INT_MAX"
      using cap by (simp add: INT_MAX_def)
    have "FibonacciBackoff_loop (int (Suc k) + 1) (int m) (spec_fib3 (Suc k - 1)) (spec_fib3 (Suc k)) cap
        = Some (min (spec_fib3 m) cap)"
      using Suc.hyps(2) km False by (intro Suc.hyps(1)) auto
    with False nov km st ni show ?thesis
      by (subst FibonacciBackoff_loop.simps) (simp add: Let_def add.commute)
  qed
qed

text \<open>
  What the code computes. For a cap of at least 3 seconds (and small enough that
  \<^verbatim>\<open>a + b\<close> stays an \<^verbatim>\<open>int\<close>), \<^verbatim>\<open>FibonacciBackoffSeconds n cap\<close> is the element
  of index \<open>n\<close>, counted from 0, of the sequence 3, 3, 6, 9, 15, 24, 39, 63, 102, 165,
  267, ... capped at \<open>cap\<close>. For \<open>n \<ge> 2\<close> that is the element after the one that the
  documentation gives to the \<open>n\<close>-th consecutive error.
\<close>

lemma FibonacciBackoffSeconds_computes:
  assumes "3 \<le> cap" and "cap \<le> 1073741823"
  shows "FibonacciBackoffSeconds n cap = Some (min (spec_fib3 (nat n)) cap)"
proof (cases "n \<le> 1")
  case True
  then have "nat n = 0 \<or> nat n = Suc 0" by auto
  then have "spec_fib3 (nat n) = 3" by auto
  with True assms(1) show ?thesis
    by (simp add: FibonacciBackoffSeconds_def)
next
  case False
  then have "1 \<le> (1::nat)" "1 \<le> nat n" "spec_fib3 1 \<le> cap"
    using assms(1) by auto
  from FibonacciBackoff_loop_fib3 [OF assms(2) this]
  show ?thesis
    using False by (simp add: FibonacciBackoffSeconds_def)
qed

lemma FibonacciBackoffSeconds_one_ahead:
  assumes "3 \<le> cap" and "cap \<le> 1073741823" and "2 \<le> n"
  shows "FibonacciBackoffSeconds n cap = Some (spec_backoff (n + 1) cap)"
  using FibonacciBackoffSeconds_computes [OF assms(1,2), of n]
  by (simp add: spec_backoff_def)

text \<open>
  Claim C7 fails on the code by an off-by-one. The second consecutive error waits 6
  seconds where the sequence 3, 3, 6, 9, 15, ... of the claim and of the documentation
  gives 3: the loop starts at \<^verbatim>\<open>i = 2\<close> with \<^verbatim>\<open>a = 3, b = 3\<close> and adds at once, so the
  delays for \<open>n = 1, 2, 3, 4, 5\<close> are 3, 6, 9, 15, 24, not 3, 3, 6, 9, 15. The early
  return \<^verbatim>\<open>if (n <= 1) return 3\<close> comes before every comparison with the cap: with a cap
  of 2 seconds the first delay is 3 seconds, above the cap, and the second is 2, below
  the first.
\<close>

theorem FibonacciBackoffSeconds_off_by_one:
  "FibonacciBackoffSeconds 2 600 = Some 6 \<and> spec_backoff 2 600 = 3
   \<and> map (\<lambda>n. FibonacciBackoffSeconds n 600) [1, 2, 3, 4, 5] = [Some 3, Some 6, Some 9, Some 15, Some 24]
   \<and> map (\<lambda>n. spec_backoff n 600) [1, 2, 3, 4, 5] = [3, 3, 6, 9, 15]
   \<and> map (\<lambda>n. spec_backoff n 600) [1, 2, 3, 4, 5, 6, 7, 8, 9, 10, 11, 12, 13]
       = [3, 3, 6, 9, 15, 24, 39, 63, 102, 165, 267, 432, 600]
   \<and> FibonacciBackoffSeconds 1 2 = Some 3 \<and> spec_backoff 1 2 = 2
   \<and> FibonacciBackoffSeconds 2 2 = Some 2"
  by (simp add: FibonacciBackoffSeconds_def FibonacciBackoff_loop.simps INT_MAX_def spec_backoff_def
      eval_nat_numeral)

text \<open>With a cap near \<^verbatim>\<open>INT_MAX\<close> the sum overflows before the cap is reached.\<close>

lemma FibonacciBackoffSeconds_overflow: "FibonacciBackoffSeconds 50 2147483647 = None"
  by (simp add: FibonacciBackoffSeconds_def FibonacciBackoff_loop.simps INT_MAX_def)

section \<open>robots.txt parser\<close>

subsection \<open>Directive keys\<close>

lemma StartsWith_hd:
  assumes "StartsWithCaseInsensitive s p" and "p \<noteq> []"
  shows "s \<noteq> [] \<and> tolower (hd s) = tolower (hd p)"
proof -
  from assms have len: "length p \<le> length s" and
    all: "\<forall>i < length p. tolower (s ! i) = tolower (p ! i)"
    by (auto simp: StartsWithCaseInsensitive_def list_all_iff split: if_splits)
  from assms(2) len have "s \<noteq> []" by auto
  moreover from all assms(2) have "tolower (s ! 0) = tolower (p ! 0)" by simp
  ultimately show ?thesis
    using assms(2) by (simp add: hd_conv_nth)
qed

lemma tolower_hash: "tolower c = CHR ''u'' \<or> tolower c = CHR ''c'' \<or> tolower c = CHR ''r''
    \<or> tolower c = CHR ''d'' \<or> tolower c = CHR ''a'' \<or> tolower c = CHR ''s'' \<Longrightarrow> c \<noteq> CHR ''#''"
  by (auto simp: tolower_def)

lemma key_user_agent: "StartsWithCaseInsensitive s ''user-agent:'' \<Longrightarrow> s \<noteq> [] \<and> tolower (hd s) = CHR ''u''"
  by (drule StartsWith_hd) (simp_all add: tolower_def)

lemma key_crawl_delay: "StartsWithCaseInsensitive s ''crawl-delay:'' \<Longrightarrow> s \<noteq> [] \<and> tolower (hd s) = CHR ''c''"
  by (drule StartsWith_hd) (simp_all add: tolower_def)

lemma key_request_rate: "StartsWithCaseInsensitive s ''request-rate:'' \<Longrightarrow> s \<noteq> [] \<and> tolower (hd s) = CHR ''r''"
  by (drule StartsWith_hd) (simp_all add: tolower_def)

lemma key_disallow: "StartsWithCaseInsensitive s ''disallow:'' \<Longrightarrow> s \<noteq> [] \<and> tolower (hd s) = CHR ''d''"
  by (drule StartsWith_hd) (simp_all add: tolower_def)

lemma key_allow: "StartsWithCaseInsensitive s ''allow:'' \<Longrightarrow> s \<noteq> [] \<and> tolower (hd s) = CHR ''a''"
  by (drule StartsWith_hd) (simp_all add: tolower_def)

lemma key_sitemap: "StartsWithCaseInsensitive s ''sitemap:'' \<Longrightarrow> s \<noteq> [] \<and> tolower (hd s) = CHR ''s''"
  by (drule StartsWith_hd) (simp_all add: tolower_def)

lemma rule_line_keys:
  assumes "is_rule_line l"
  shows "Trim l \<noteq> []" and "hd (Trim l) \<noteq> CHR ''#''"
    and "\<not> StartsWithCaseInsensitive (Trim l) ''user-agent:''"
    and "\<not> StartsWithCaseInsensitive (Trim l) ''sitemap:''"
proof -
  from assms have k: "Trim l \<noteq> [] \<and> (tolower (hd (Trim l)) = CHR ''c'' \<or> tolower (hd (Trim l)) = CHR ''r''
      \<or> tolower (hd (Trim l)) = CHR ''d'' \<or> tolower (hd (Trim l)) = CHR ''a'')"
    unfolding is_rule_line_def
    using key_crawl_delay key_request_rate key_disallow key_allow by blast
  then show "Trim l \<noteq> []" by simp
  from k show "hd (Trim l) \<noteq> CHR ''#''"
    by (intro tolower_hash) auto
  from k show "\<not> StartsWithCaseInsensitive (Trim l) ''user-agent:''"
    by (auto dest!: key_user_agent)
  from k show "\<not> StartsWithCaseInsensitive (Trim l) ''sitemap:''"
    by (auto dest!: key_sitemap)
qed

subsection \<open>One line\<close>

lemma Parse_line_rule_no_block:
  assumes "is_rule_line l" and "current_rules st = None"
  shows "Parse_line stod fdiv st l = st"
  using rule_line_keys [OF assms(1)] assms(2)
  by (simp add: Parse_line_def)

lemma current_rules_update [simp]: "current_rules (update_current_rules f st) = current_rules st"
  by (simp add: update_current_rules_def split: option.splits)

lemma sitemaps_update [simp]: "sitemaps (data (update_current_rules f st)) = sitemaps (data st)"
  by (simp add: update_current_rules_def split: option.splits)

lemma user_agents_update_other:
  "current_rules st = Some k \<Longrightarrow> k' \<noteq> k \<Longrightarrow>
   user_agents (data (update_current_rules f st)) k' = user_agents (data st) k'"
  by (simp add: update_current_rules_def split: option.splits)

lemma user_agents_update_current:
  "current_rules st = Some k \<Longrightarrow> user_agents (data st) k = Some r \<Longrightarrow>
   user_agents (data (update_current_rules f st)) k = Some (f r)"
  by (simp add: update_current_rules_def)

lemma Parse_line_not_user_agent:
  assumes "\<not> is_user_agent_line l"
  shows "current_rules (Parse_line stod fdiv st l) = current_rules st"
  using assms
  by (simp add: Parse_line_def is_user_agent_line_def Let_def split: option.splits)

lemma Parse_line_rule_other:
  assumes "is_rule_line l" and "current_rules st = Some k" and "k' \<noteq> k"
  shows "user_agents (data (Parse_line stod fdiv st l)) k' = user_agents (data st) k'"
  using rule_line_keys [OF assms(1)] assms(2,3)
  by (simp add: Parse_line_def Let_def user_agents_update_other split: option.splits)

lemma Parse_line_user_agent:
  assumes "is_user_agent_line l" and "ToLower (ExtractValue (Trim l) 11) \<noteq> []"
  shows "current_rules (Parse_line stod fdiv st l) = Some (ToLower (ExtractValue (Trim l) 11))"
    and "user_agents (data (Parse_line stod fdiv st l)) (ToLower (ExtractValue (Trim l) 11)) \<noteq> None"
    and "user_agents (data st) k \<noteq> None \<Longrightarrow> user_agents (data (Parse_line stod fdiv st l)) k \<noteq> None"
  using assms key_user_agent [of "Trim l"] tolower_hash [of "hd (Trim l)"]
  by (auto simp: Parse_line_def is_user_agent_line_def Let_def)

lemma Parse_line_disallow:
  assumes "StartsWithCaseInsensitive (Trim l) ''disallow:''" and "ExtractValue (Trim l) 9 \<noteq> []"
    and "current_rules st = Some k" and "user_agents (data st) k = Some r"
  shows "user_agents (data (Parse_line stod fdiv st l)) k
    = Some (r\<lparr>disallow := disallow r @ [ExtractValue (Trim l) 9]\<rparr>)"
proof -
  have "is_rule_line l"
    using assms(1) by (simp add: is_rule_line_def)
  from rule_line_keys [OF this] key_disallow [OF assms(1)] assms show ?thesis
    by (auto simp: Parse_line_def Let_def user_agents_update_current
        dest!: key_crawl_delay key_request_rate)
qed

lemma Parse_line_allow:
  assumes "StartsWithCaseInsensitive (Trim l) ''allow:''" and "ExtractValue (Trim l) 6 \<noteq> []"
    and "current_rules st = Some k" and "user_agents (data st) k = Some r"
  shows "user_agents (data (Parse_line stod fdiv st l)) k
    = Some (r\<lparr>allow := allow r @ [ExtractValue (Trim l) 6]\<rparr>)"
proof -
  have "is_rule_line l"
    using assms(1) by (simp add: is_rule_line_def)
  from rule_line_keys [OF this] key_allow [OF assms(1)] assms show ?thesis
    by (auto simp: Parse_line_def Let_def user_agents_update_current
        dest!: key_crawl_delay key_request_rate key_disallow)
qed

lemma Parse_line_crawl_delay:
  assumes "StartsWithCaseInsensitive (Trim l) ''crawl-delay:''"
    and "stod (ExtractValue (Trim l) 12) = Some delay" and "d_ge0 delay"
    and "current_rules st = Some k" and "user_agents (data st) k = Some r"
  shows "user_agents (data (Parse_line stod fdiv st l)) k = Some (r\<lparr>crawl_delay := delay\<rparr>)"
proof -
  have "is_rule_line l"
    using assms(1) by (simp add: is_rule_line_def)
  from rule_line_keys [OF this] assms show ?thesis
    by (simp add: Parse_line_def Let_def user_agents_update_current)
qed

lemma Parse_line_request_rate:
  assumes "StartsWithCaseInsensitive (Trim l) ''request-rate:''"
    and "str_find (ExtractValue (Trim l) 13) ''/'' 0 = Some slash_pos"
    and "stod (substr (ExtractValue (Trim l) 13) 0 slash_pos) = Some n"
    and "stod (substr_from (ExtractValue (Trim l) 13) (slash_pos + 1)) = Some m"
    and "d_gt0 n" and "d_gt0 m"
    and "current_rules st = Some k" and "user_agents (data st) k = Some r"
  shows "user_agents (data (Parse_line stod fdiv st l)) k = Some (r\<lparr>request_rate := fdiv m n\<rparr>)"
proof -
  have "is_rule_line l"
    using assms(1) by (simp add: is_rule_line_def)
  from rule_line_keys [OF this] key_request_rate [OF assms(1)] assms show ?thesis
    by (auto simp: Parse_line_def Let_def user_agents_update_current dest!: key_crawl_delay)
qed

subsection \<open>Lines\<close>

lemma getlines_line: "CHR 0x0A \<notin> set l \<Longrightarrow> getlines (l @ CHR 0x0A # rest) = l # getlines rest"
  by (induction l) auto

lemma getlines_join_lines: "\<forall>l \<in> set ls. CHR 0x0A \<notin> set l \<Longrightarrow> getlines (join_lines ls) = ls"
  by (induction ls) (auto simp: join_lines_def getlines_line)

lemma foldl_drop_early_rules:
  "current_rules st = None \<Longrightarrow>
   foldl (Parse_line stod fdiv) st (drop_early_rules ls) = foldl (Parse_line stod fdiv) st ls"
proof (induction ls arbitrary: st)
  case Nil
  then show ?case by simp
next
  case (Cons l ls)
  show ?case
  proof (cases "is_user_agent_line l")
    case True
    then show ?thesis by simp
  next
    case ua: False
    show ?thesis
    proof (cases "is_rule_line l")
      case True
      with ua Cons show ?thesis
        by (simp add: Parse_line_rule_no_block)
    next
      case False
      have "current_rules (Parse_line stod fdiv st l) = None"
        using Parse_line_not_user_agent [OF ua] Cons.prems by simp
      with ua False Cons.IH show ?thesis by simp
    qed
  qed
qed

lemma drop_early_rules_no_LF:
  "\<forall>l \<in> set ls. CHR 0x0A \<notin> set l \<Longrightarrow> \<forall>l \<in> set (drop_early_rules ls). CHR 0x0A \<notin> set l"
  by (induction ls) auto

lemma foldl_user_agents:
  assumes "\<forall>l \<in> set uas. is_user_agent_line l \<and> ToLower (ExtractValue (Trim l) 11) \<noteq> []"
  shows "(uas \<noteq> [] \<longrightarrow> current_rules (foldl (Parse_line stod fdiv) st uas)
            = Some (ToLower (ExtractValue (Trim (last uas)) 11)))
       \<and> (\<forall>l \<in> set uas. user_agents (data (foldl (Parse_line stod fdiv) st uas))
            (ToLower (ExtractValue (Trim l) 11)) \<noteq> None)
       \<and> (\<forall>k. user_agents (data st) k \<noteq> None \<longrightarrow>
            user_agents (data (foldl (Parse_line stod fdiv) st uas)) k \<noteq> None)"
  using assms
proof (induction uas arbitrary: st rule: rev_induct)
  case Nil
  then show ?case by simp
next
  case (snoc l uas)
  then have l: "is_user_agent_line l" "ToLower (ExtractValue (Trim l) 11) \<noteq> []"
    by auto
  from snoc have IH: "(\<forall>l \<in> set uas. user_agents (data (foldl (Parse_line stod fdiv) st uas))
            (ToLower (ExtractValue (Trim l) 11)) \<noteq> None)
       \<and> (\<forall>k. user_agents (data st) k \<noteq> None \<longrightarrow>
            user_agents (data (foldl (Parse_line stod fdiv) st uas)) k \<noteq> None)"
    by simp
  show ?case
    using Parse_line_user_agent [OF l, where stod = stod and fdiv = fdiv
        and st = "foldl (Parse_line stod fdiv) st uas"] IH
    by auto
qed

lemma Parse_line_cases [case_names same update user_agent sitemap]:
  obtains "Parse_line stod fdiv st l = st"
  | f where "\<not> is_user_agent_line l"
      and "Parse_line stod fdiv st l = update_current_rules f st"
  | "is_user_agent_line l"
      and "Parse_line stod fdiv st l =
        st\<lparr>data := (if user_agents (data st) (ToLower (ExtractValue (Trim l) 11)) = None
                     then (data st)\<lparr>user_agents := (user_agents (data st))
                            (ToLower (ExtractValue (Trim l) 11) \<mapsto> RobotsRules_default)\<rparr>
                     else data st),
            current_user_agent := ToLower (ExtractValue (Trim l) 11),
            current_rules := Some (ToLower (ExtractValue (Trim l) 11))\<rparr>"
  | "\<not> is_user_agent_line l"
      and "Parse_line stod fdiv st l =
        st\<lparr>data := (data st)\<lparr>sitemaps := sitemaps (data st) @ [ExtractValue (Trim l) 8]\<rparr>\<rparr>"
proof -
  let ?t = "Trim l"
  let ?P = "Parse_line stod fdiv st l"
  consider (c0) "?t = [] \<or> hd ?t = CHR ''#''"
    | (c1) "\<not> (?t = [] \<or> hd ?t = CHR ''#'')" "StartsWithCaseInsensitive ?t ''user-agent:''"
    | (c2) "\<not> (?t = [] \<or> hd ?t = CHR ''#'')" "\<not> StartsWithCaseInsensitive ?t ''user-agent:''"
        "StartsWithCaseInsensitive ?t ''crawl-delay:'' \<and> current_rules st \<noteq> None"
    | (c3) "\<not> (?t = [] \<or> hd ?t = CHR ''#'')" "\<not> StartsWithCaseInsensitive ?t ''user-agent:''"
        "\<not> (StartsWithCaseInsensitive ?t ''crawl-delay:'' \<and> current_rules st \<noteq> None)"
        "StartsWithCaseInsensitive ?t ''request-rate:'' \<and> current_rules st \<noteq> None"
    | (c4) "\<not> (?t = [] \<or> hd ?t = CHR ''#'')" "\<not> StartsWithCaseInsensitive ?t ''user-agent:''"
        "\<not> (StartsWithCaseInsensitive ?t ''crawl-delay:'' \<and> current_rules st \<noteq> None)"
        "\<not> (StartsWithCaseInsensitive ?t ''request-rate:'' \<and> current_rules st \<noteq> None)"
        "StartsWithCaseInsensitive ?t ''disallow:'' \<and> current_rules st \<noteq> None"
    | (c5) "\<not> (?t = [] \<or> hd ?t = CHR ''#'')" "\<not> StartsWithCaseInsensitive ?t ''user-agent:''"
        "\<not> (StartsWithCaseInsensitive ?t ''crawl-delay:'' \<and> current_rules st \<noteq> None)"
        "\<not> (StartsWithCaseInsensitive ?t ''request-rate:'' \<and> current_rules st \<noteq> None)"
        "\<not> (StartsWithCaseInsensitive ?t ''disallow:'' \<and> current_rules st \<noteq> None)"
        "StartsWithCaseInsensitive ?t ''allow:'' \<and> current_rules st \<noteq> None"
    | (c6) "\<not> (?t = [] \<or> hd ?t = CHR ''#'')" "\<not> StartsWithCaseInsensitive ?t ''user-agent:''"
        "\<not> (StartsWithCaseInsensitive ?t ''crawl-delay:'' \<and> current_rules st \<noteq> None)"
        "\<not> (StartsWithCaseInsensitive ?t ''request-rate:'' \<and> current_rules st \<noteq> None)"
        "\<not> (StartsWithCaseInsensitive ?t ''disallow:'' \<and> current_rules st \<noteq> None)"
        "\<not> (StartsWithCaseInsensitive ?t ''allow:'' \<and> current_rules st \<noteq> None)"
    by blast
  then show thesis
  proof cases
    case c0
    then have "?P = st" by (simp add: Parse_line_def)
    then show ?thesis by (rule that(1))
  next
    case c1
    show ?thesis
    proof (cases "ToLower (ExtractValue ?t 11) = []")
      case True
      with c1 have "?P = st" by (simp add: Parse_line_def)
      then show ?thesis by (rule that(1))
    next
      case False
      with c1 show ?thesis
        by (intro that(3)) (simp_all add: is_user_agent_line_def Parse_line_def Let_def)
    qed
  next
    case c2
    then have "?P = st \<or> ?P = update_current_rules (\<lambda>r. r\<lparr>crawl_delay := the (stod (ExtractValue ?t 12))\<rparr>) st"
      by (auto simp: Parse_line_def Let_def split: option.splits)
    with c2(2) show ?thesis
      using that(1,2) by (auto simp: is_user_agent_line_def)
  next
    case c3
    then have "?P = st \<or> ?P = update_current_rules (\<lambda>r. r\<lparr>request_rate :=
        fdiv (the (stod (substr_from (ExtractValue ?t 13) (the (str_find (ExtractValue ?t 13) ''/'' 0) + 1))))
          (the (stod (substr (ExtractValue ?t 13) 0 (the (str_find (ExtractValue ?t 13) ''/'' 0)))))\<rparr>) st"
      by (auto simp: Parse_line_def Let_def split: option.splits)
    with c3(2) show ?thesis
      using that(1,2) by (auto simp: is_user_agent_line_def)
  next
    case c4
    then have "?P = st \<or> ?P = update_current_rules (\<lambda>r. r\<lparr>disallow := disallow r @ [ExtractValue ?t 9]\<rparr>) st"
      by (simp add: Parse_line_def Let_def)
    with c4(2) show ?thesis
      using that(1,2) by (auto simp: is_user_agent_line_def)
  next
    case c5
    then have "?P = st \<or> ?P = update_current_rules (\<lambda>r. r\<lparr>allow := allow r @ [ExtractValue ?t 6]\<rparr>) st"
      by (simp add: Parse_line_def Let_def)
    with c5(2) show ?thesis
      using that(1,2) by (auto simp: is_user_agent_line_def)
  next
    case c6
    then have "?P = st \<or> ?P = st\<lparr>data := (data st)\<lparr>sitemaps := sitemaps (data st) @ [ExtractValue ?t 8]\<rparr>\<rparr>"
      by (cases "current_rules st") (simp_all add: Parse_line_def Let_def)
    with c6(2) show ?thesis
      using that(1,4) by (auto simp: is_user_agent_line_def)
  qed
qed

lemma Parse_line_sitemaps_mono:
  "set (sitemaps (data st)) \<subseteq> set (sitemaps (data (Parse_line stod fdiv st l)))"
  by (cases rule: Parse_line_cases [of stod fdiv st l]) auto

lemma foldl_sitemaps_mono:
  "set (sitemaps (data st)) \<subseteq> set (sitemaps (data (foldl (Parse_line stod fdiv) st ls)))"
proof (induction ls arbitrary: st)
  case Nil
  then show ?case by simp
next
  case (Cons l ls)
  have "set (sitemaps (data st)) \<subseteq> set (sitemaps (data (Parse_line stod fdiv st l)))"
    by (rule Parse_line_sitemaps_mono)
  also have "\<dots> \<subseteq> set (sitemaps (data (foldl (Parse_line stod fdiv) (Parse_line stod fdiv st l) ls)))"
    by (rule Cons.IH)
  finally show ?case by simp
qed

lemma Parse_line_sitemap:
  assumes "StartsWithCaseInsensitive (Trim l) ''sitemap:''" and "ExtractValue (Trim l) 8 \<noteq> []"
  shows "ExtractValue (Trim l) 8 \<in> set (sitemaps (data (Parse_line stod fdiv st l)))"
proof -
  from key_sitemap [OF assms(1)] have k: "Trim l \<noteq> []" "tolower (hd (Trim l)) = CHR ''s''"
    by auto
  from k(2) have "hd (Trim l) \<noteq> CHR ''#''"
    by (intro tolower_hash) simp
  moreover from k(2) have "\<not> StartsWithCaseInsensitive (Trim l) ''user-agent:''"
    "\<not> StartsWithCaseInsensitive (Trim l) ''crawl-delay:''"
    "\<not> StartsWithCaseInsensitive (Trim l) ''request-rate:''"
    "\<not> StartsWithCaseInsensitive (Trim l) ''disallow:''"
    "\<not> StartsWithCaseInsensitive (Trim l) ''allow:''"
    by (auto dest!: key_user_agent key_crawl_delay key_request_rate key_disallow key_allow)
  ultimately show ?thesis
    using k(1) assms by (simp add: Parse_line_def Let_def)
qed

lemma foldl_sitemap:
  assumes "l \<in> set ls" and "StartsWithCaseInsensitive (Trim l) ''sitemap:''"
    and "ExtractValue (Trim l) 8 \<noteq> []"
  shows "ExtractValue (Trim l) 8 \<in> set (sitemaps (data (foldl (Parse_line stod fdiv) st ls)))"
proof -
  from assms(1) obtain xs ys where ls: "ls = xs @ l # ys"
    by (auto simp: in_set_conv_decomp)
  have "ExtractValue (Trim l) 8
      \<in> set (sitemaps (data (Parse_line stod fdiv (foldl (Parse_line stod fdiv) st xs) l)))"
    using assms(2,3) by (rule Parse_line_sitemap)
  moreover have "set (sitemaps (data (Parse_line stod fdiv (foldl (Parse_line stod fdiv) st xs) l)))
      \<subseteq> set (sitemaps (data (foldl (Parse_line stod fdiv) st ls)))"
    unfolding ls by (simp add: foldl_sitemaps_mono)
  ultimately show ?thesis by blast
qed

subsection \<open>User-agent selection\<close>

lemma prefix_match_loop_find:
  "prefix_match_loop ks m ua =
     (case List.find (\<lambda>k. m k \<noteq> None \<and> k \<noteq> ''*'' \<and> prefix k ua) ks of
        Some k \<Rightarrow> m k
      | None \<Rightarrow> None)"
  by (induction ks) (auto simp: str_find_0 split: option.splits)

text \<open>
  Claim C3, as the code has it. \<^verbatim>\<open>GetRulesForUserAgent\<close> selects the rules of the
  exact match on the lowercased user-agent; otherwise those of the first block, in the
  iteration order of the map, whose name is not \<open>*\<close> and is a prefix of the lowercased
  user-agent; otherwise those of the \<open>*\<close> block; otherwise empty rules.
\<close>

theorem GetRulesForUserAgent_selection:
  "GetRulesForUserAgent iteration d ua =
     (case user_agents d (ToLower ua) of
        Some r \<Rightarrow> r
      | None \<Rightarrow>
          (case List.find (\<lambda>k. user_agents d k \<noteq> None \<and> k \<noteq> ''*'' \<and> prefix k (ToLower ua)) iteration of
             Some k \<Rightarrow> the (user_agents d k)
           | None \<Rightarrow>
               (case user_agents d ''*'' of
                  Some r \<Rightarrow> r
                | None \<Rightarrow> RobotsRules_default)))"
proof (cases "user_agents d (ToLower ua)")
  case (Some r)
  then show ?thesis
    by (simp add: GetRulesForUserAgent_def)
next
  case None
  let ?P = "\<lambda>k. user_agents d k \<noteq> None \<and> k \<noteq> ''*'' \<and> prefix k (ToLower ua)"
  show ?thesis
  proof (cases "List.find ?P iteration")
    case n: None
    then have "prefix_match_loop iteration (user_agents d) (ToLower ua) = None"
      by (simp add: prefix_match_loop_find)
    with None n show ?thesis
      by (simp add: GetRulesForUserAgent_def)
  next
    case (Some k)
    then have "?P k"
      by (auto simp: find_Some_iff)
    then obtain r where r: "user_agents d k = Some r"
      by auto
    with Some have "prefix_match_loop iteration (user_agents d) (ToLower ua) = Some r"
      by (simp add: prefix_match_loop_find)
    with None Some r show ?thesis
      by (simp add: GetRulesForUserAgent_def)
  qed
qed

theorem GetRulesForUserAgent_selection_witness:
  "GetRulesForUserAgent [''*'', ''mybot'']
     \<lparr>user_agents = [''*'' \<mapsto> RobotsRules_default\<lparr>disallow := [''/'']\<rparr>,
                      ''mybot'' \<mapsto> RobotsRules_default\<lparr>disallow := [''/a'']\<rparr>],
      sitemaps = []\<rparr> ''MyBot/1.0''
   = RobotsRules_default\<lparr>disallow := [''/a'']\<rparr>"
proof -
  have l: "ToLower ''MyBot/1.0'' = ''mybot/1.0''" by code_simp
  show ?thesis
    by (simp add: GetRulesForUserAgent_selection l)
qed

text \<open>
  The claim as stated fails: with the blocks \<open>my\<close> and \<open>mybot\<close> visited in this order,
  the user-agent \<open>MyBot/1.0\<close> gets the rules of \<open>my\<close>, and the spec_longest prefix among the
  matching blocks is \<open>mybot\<close>.
\<close>

theorem GetRulesForUserAgent_longest_counterexample:
  "GetRulesForUserAgent [''my'', ''mybot'']
     (Parse (\<lambda>s. None) (\<lambda>a b. NaN)
        ''User-agent: mybot\<newline>Disallow: /a\<newline>User-agent: my\<newline>Disallow: /b'') ''MyBot/1.0''
     = RobotsRules_default\<lparr>disallow := [''/b'']\<rparr>
   \<and> spec_GetRules [''my'', ''mybot'']
     (Parse (\<lambda>s. None) (\<lambda>a b. NaN)
        ''User-agent: mybot\<newline>Disallow: /a\<newline>User-agent: my\<newline>Disallow: /b'') ''MyBot/1.0''
     = RobotsRules_default\<lparr>disallow := [''/a'']\<rparr>"
  by code_simp

subsection \<open>Consecutive User-agent lines\<close>

text \<open>
  Claim C4, as the code has it. When several consecutive User-agent lines are followed
  by a rule line, every listed user-agent has an entry, and the rule is attributed to
  the last listed user-agent only: the entry of every other user-agent is what it was
  before the rule line, and in the entry \<open>r\<close> of the last listed user-agent a Disallow
  line with a path appends the path to \<^verbatim>\<open>disallow\<close>, an Allow line with a path appends
  the path to \<^verbatim>\<open>allow\<close>, a Crawl-delay line whose value \<^verbatim>\<open>std::stod\<close> reads as a delay
  \<open>\<ge> 0\<close> sets \<^verbatim>\<open>crawl_delay\<close> to it, and a Request-rate line \<^verbatim>\<open>n/m\<close> with \<open>n > 0\<close> and
  \<open>m > 0\<close> sets \<^verbatim>\<open>request_rate\<close> to \<open>m / n\<close>.
\<close>

theorem Parse_rule_goes_to_last_user_agent:
  assumes "uas \<noteq> []"
    and "\<forall>u \<in> set uas. is_user_agent_line u \<and> ToLower (ExtractValue (Trim u) 11) \<noteq> []"
    and "is_rule_line l"
    and "\<forall>x \<in> set (pre @ uas @ [l]). CHR 0x0A \<notin> set x"
  shows "\<exists>r. user_agents (Parse stod fdiv (join_lines (pre @ uas)))
             (ToLower (ExtractValue (Trim (last uas)) 11)) = Some r
    \<and> (\<forall>u \<in> set uas. user_agents (Parse stod fdiv (join_lines (pre @ uas @ [l])))
             (ToLower (ExtractValue (Trim u) 11)) \<noteq> None)
    \<and> (\<forall>k. k \<noteq> ToLower (ExtractValue (Trim (last uas)) 11) \<longrightarrow>
            user_agents (Parse stod fdiv (join_lines (pre @ uas @ [l]))) k
          = user_agents (Parse stod fdiv (join_lines (pre @ uas))) k)
    \<and> (StartsWithCaseInsensitive (Trim l) ''disallow:'' \<and> ExtractValue (Trim l) 9 \<noteq> [] \<longrightarrow>
         user_agents (Parse stod fdiv (join_lines (pre @ uas @ [l])))
             (ToLower (ExtractValue (Trim (last uas)) 11))
         = Some (r\<lparr>disallow := disallow r @ [ExtractValue (Trim l) 9]\<rparr>))
    \<and> (StartsWithCaseInsensitive (Trim l) ''allow:'' \<and> ExtractValue (Trim l) 6 \<noteq> [] \<longrightarrow>
         user_agents (Parse stod fdiv (join_lines (pre @ uas @ [l])))
             (ToLower (ExtractValue (Trim (last uas)) 11))
         = Some (r\<lparr>allow := allow r @ [ExtractValue (Trim l) 6]\<rparr>))
    \<and> (\<forall>delay. StartsWithCaseInsensitive (Trim l) ''crawl-delay:''
           \<and> stod (ExtractValue (Trim l) 12) = Some delay \<and> d_ge0 delay \<longrightarrow>
         user_agents (Parse stod fdiv (join_lines (pre @ uas @ [l])))
             (ToLower (ExtractValue (Trim (last uas)) 11))
         = Some (r\<lparr>crawl_delay := delay\<rparr>))
    \<and> (\<forall>slash_pos n m. StartsWithCaseInsensitive (Trim l) ''request-rate:''
           \<and> str_find (ExtractValue (Trim l) 13) ''/'' 0 = Some slash_pos
           \<and> stod (substr (ExtractValue (Trim l) 13) 0 slash_pos) = Some n
           \<and> stod (substr_from (ExtractValue (Trim l) 13) (slash_pos + 1)) = Some m
           \<and> d_gt0 n \<and> d_gt0 m \<longrightarrow>
         user_agents (Parse stod fdiv (join_lines (pre @ uas @ [l])))
             (ToLower (ExtractValue (Trim (last uas)) 11))
         = Some (r\<lparr>request_rate := fdiv m n\<rparr>))"
proof -
  define st where "st = foldl (Parse_line stod fdiv) Parse_init pre"
  define st1 where "st1 = foldl (Parse_line stod fdiv) st uas"
  define kl where "kl = ToLower (ExtractValue (Trim (last uas)) 11)"
  have p1: "Parse stod fdiv (join_lines (pre @ uas)) = data st1"
    using assms(4) by (simp add: Parse_def Parse_lines_def getlines_join_lines st_def st1_def)
  have p2: "Parse stod fdiv (join_lines (pre @ uas @ [l])) = data (Parse_line stod fdiv st1 l)"
    using assms(4) by (simp add: Parse_def Parse_lines_def getlines_join_lines st_def st1_def)
  from foldl_user_agents [OF assms(2), of stod fdiv st] assms(1)
  have cur: "current_rules st1 = Some kl"
    and ex: "user_agents (data st1) kl \<noteq> None"
    and listed: "\<forall>u \<in> set uas. user_agents (data st1) (ToLower (ExtractValue (Trim u) 11)) \<noteq> None"
    by (auto simp: st1_def kl_def)
  from ex obtain r where r: "user_agents (data st1) kl = Some r" by auto
  have other: "user_agents (data (Parse_line stod fdiv st1 l)) k = user_agents (data st1) k"
    if "k \<noteq> kl" for k
    using assms(3) cur that by (rule Parse_line_rule_other)
  have dis: "user_agents (data (Parse_line stod fdiv st1 l)) kl
          = Some (r\<lparr>disallow := disallow r @ [ExtractValue (Trim l) 9]\<rparr>)"
    if "StartsWithCaseInsensitive (Trim l) ''disallow:''" "ExtractValue (Trim l) 9 \<noteq> []"
    using that cur r by (rule Parse_line_disallow)
  have alw: "user_agents (data (Parse_line stod fdiv st1 l)) kl
          = Some (r\<lparr>allow := allow r @ [ExtractValue (Trim l) 6]\<rparr>)"
    if "StartsWithCaseInsensitive (Trim l) ''allow:''" "ExtractValue (Trim l) 6 \<noteq> []"
    using that cur r by (rule Parse_line_allow)
  have cd: "user_agents (data (Parse_line stod fdiv st1 l)) kl = Some (r\<lparr>crawl_delay := delay\<rparr>)"
    if "StartsWithCaseInsensitive (Trim l) ''crawl-delay:''"
      "stod (ExtractValue (Trim l) 12) = Some delay" "d_ge0 delay" for delay
    using that cur r by (rule Parse_line_crawl_delay)
  have rr: "user_agents (data (Parse_line stod fdiv st1 l)) kl = Some (r\<lparr>request_rate := fdiv m n\<rparr>)"
    if "StartsWithCaseInsensitive (Trim l) ''request-rate:''"
      "str_find (ExtractValue (Trim l) 13) ''/'' 0 = Some slash_pos"
      "stod (substr (ExtractValue (Trim l) 13) 0 slash_pos) = Some n"
      "stod (substr_from (ExtractValue (Trim l) 13) (slash_pos + 1)) = Some m"
      "d_gt0 n" "d_gt0 m" for slash_pos n m
    using that cur r by (rule Parse_line_request_rate)
  have still: "user_agents (data (Parse_line stod fdiv st1 l)) (ToLower (ExtractValue (Trim u) 11)) \<noteq> None"
    if "u \<in> set uas" for u
  proof (cases "ToLower (ExtractValue (Trim u) 11) = kl")
    case True
    have "\<not> is_user_agent_line l"
      using rule_line_keys(3) [OF assms(3)] by (simp add: is_user_agent_line_def)
    then have c: "current_rules (Parse_line stod fdiv st1 l) = Some kl"
      using cur by (simp add: Parse_line_not_user_agent)
    show ?thesis
    proof (cases rule: Parse_line_cases [of stod fdiv st1 l])
      case same
      with r True show ?thesis by simp
    next
      case (update f)
      with user_agents_update_current [OF cur r, of f] True show ?thesis by simp
    next
      case user_agent
      with \<open>\<not> is_user_agent_line l\<close> show ?thesis by simp
    next
      case sitemap
      with r True show ?thesis by simp
    qed
  next
    case False
    with other [OF False] listed that show ?thesis by simp
  qed
  show ?thesis
    unfolding p1 p2 kl_def [symmetric]
    using r other dis alw cd rr still by (intro exI [of _ r]) blast
qed

theorem Parse_rule_goes_to_last_user_agent_witness:
  "user_agents (Parse (\<lambda>s. if s = ''5'' then Some (Finite 5) else None) (\<lambda>a b. NaN)
       (join_lines ([] @ [''User-agent: a'', ''User-agent: b''] @ [''Crawl-delay: 5'']))) ''b''
     = Some (RobotsRules_default\<lparr>crawl_delay := Finite 5\<rparr>)
   \<and> user_agents (Parse (\<lambda>s. if s = ''5'' then Some (Finite 5) else None) (\<lambda>a b. NaN)
       (join_lines ([] @ [''User-agent: a'', ''User-agent: b''] @ [''Crawl-delay: 5'']))) ''a''
     = Some RobotsRules_default"
proof -
  define stod :: "string \<Rightarrow> double option" where "stod = (\<lambda>s. if s = ''5'' then Some (Finite 5) else None)"
  define fdiv :: "double \<Rightarrow> double \<Rightarrow> double" where "fdiv = (\<lambda>a b. NaN)"
  have h1: "[''User-agent: a'', ''User-agent: b''] \<noteq> []" by simp
  have h2: "\<forall>u \<in> set [''User-agent: a'', ''User-agent: b''].
      is_user_agent_line u \<and> ToLower (ExtractValue (Trim u) 11) \<noteq> []"
    by code_simp
  have h3: "is_rule_line ''Crawl-delay: 5''" by code_simp
  have h4: "\<forall>x \<in> set ([] @ [''User-agent: a'', ''User-agent: b''] @ [''Crawl-delay: 5'']).
      CHR 0x0A \<notin> set x"
    by simp
  have kb: "ToLower (ExtractValue (Trim (last [''User-agent: a'', ''User-agent: b''])) 11) = ''b''"
    by code_simp
  have c1: "StartsWithCaseInsensitive (Trim ''Crawl-delay: 5'') ''crawl-delay:''"
    by code_simp
  have v: "ExtractValue (Trim ''Crawl-delay: 5'') 12 = ''5''"
    by code_simp
  have c2: "stod (ExtractValue (Trim ''Crawl-delay: 5'') 12) = Some (Finite 5)"
    unfolding v by (simp add: stod_def)
  have c3: "d_ge0 (Finite 5)"
    by (simp add: d_ge0_def)
  have before: "user_agents (Parse stod fdiv (join_lines ([] @ [''User-agent: a'', ''User-agent: b''])))
        ''b'' = Some RobotsRules_default"
    "user_agents (Parse stod fdiv (join_lines ([] @ [''User-agent: a'', ''User-agent: b''])))
        ''a'' = Some RobotsRules_default"
    unfolding stod_def fdiv_def by code_simp+
  have ab: "''a'' \<noteq> ''b''" by simp
  from Parse_rule_goes_to_last_user_agent [OF h1 h2 h3 h4, of stod fdiv]
  obtain r where r: "user_agents (Parse stod fdiv (join_lines ([] @ [''User-agent: a'', ''User-agent: b''])))
        ''b'' = Some r"
    and oth: "\<forall>k. k \<noteq> ''b'' \<longrightarrow>
        user_agents (Parse stod fdiv (join_lines ([] @ [''User-agent: a'', ''User-agent: b''] @ [''Crawl-delay: 5'']))) k
        = user_agents (Parse stod fdiv (join_lines ([] @ [''User-agent: a'', ''User-agent: b'']))) k"
    and cd: "\<forall>delay. StartsWithCaseInsensitive (Trim ''Crawl-delay: 5'') ''crawl-delay:''
           \<and> stod (ExtractValue (Trim ''Crawl-delay: 5'') 12) = Some delay \<and> d_ge0 delay \<longrightarrow>
         user_agents (Parse stod fdiv (join_lines ([] @ [''User-agent: a'', ''User-agent: b''] @ [''Crawl-delay: 5''])))
             ''b''
         = Some (r\<lparr>crawl_delay := delay\<rparr>)"
    unfolding kb by blast
  from r have "r = RobotsRules_default"
    unfolding before by simp
  with cd [rule_format, of "Finite 5"] c1 c2 c3 oth [rule_format, OF ab] before(2) show ?thesis
    unfolding stod_def fdiv_def by simp
qed

text \<open>
  The claim as stated fails: of two user-agents listed before a Disallow line, the
  first gets an entry without the rule, and only the second gets the rule.
\<close>

theorem Parse_shared_block_counterexample:
  "user_agents (Parse (\<lambda>s. None) (\<lambda>a b. NaN)
       ''User-agent: a\<newline>User-agent: b\<newline>Disallow: /x'') ''a''
     = Some RobotsRules_default
   \<and> user_agents (Parse (\<lambda>s. None) (\<lambda>a b. NaN)
       ''User-agent: a\<newline>User-agent: b\<newline>Disallow: /x'') ''b''
     = Some (RobotsRules_default\<lparr>disallow := [''/x'']\<rparr>)"
  by code_simp

subsection \<open>Rule lines before the first User-agent line\<close>

lemma getlines_no_LF: "l \<in> set (getlines s) \<Longrightarrow> CHR 0x0A \<notin> set l"
proof (induction s arbitrary: l)
  case Nil
  then show ?case by simp
next
  case (Cons c cs)
  show ?case
  proof (cases "c = CHR 0x0A")
    case True
    with Cons show ?thesis by auto
  next
    case False
    show ?thesis
    proof (cases "getlines cs")
      case Nil
      with False Cons.prems show ?thesis by auto
    next
      case (Cons l' ls)
      with False Cons.prems Cons.IH [of l'] Cons.IH [of l] show ?thesis by auto
    qed
  qed
qed

text \<open>
  Claim C10. The Allow, Disallow, Crawl-delay and Request-rate lines that stand before
  the first User-agent line are dropped: on every content, \<^verbatim>\<open>Parse\<close> returns what it
  returns on the lines of the content without them. Every Sitemap line with a URL is
  collected wherever it stands.
\<close>

theorem Parse_drops_rules_before_first_user_agent:
  "Parse stod fdiv content = Parse stod fdiv (join_lines (drop_early_rules (getlines content)))
    \<and> (\<forall>l \<in> set (getlines content).
          StartsWithCaseInsensitive (Trim l) ''sitemap:'' \<and> ExtractValue (Trim l) 8 \<noteq> [] \<longrightarrow>
          ExtractValue (Trim l) 8 \<in> set (sitemaps (Parse stod fdiv content)))"
proof -
  have nl: "\<forall>l \<in> set (getlines content). CHR 0x0A \<notin> set l"
    by (auto dest: getlines_no_LF)
  have "current_rules Parse_init = None"
    by (simp add: Parse_init_def)
  then have "Parse_lines stod fdiv (drop_early_rules (getlines content))
      = Parse_lines stod fdiv (getlines content)"
    unfolding Parse_lines_def by (rule foldl_drop_early_rules)
  then have eq: "Parse stod fdiv content
      = Parse stod fdiv (join_lines (drop_early_rules (getlines content)))"
    using drop_early_rules_no_LF [OF nl]
    by (simp add: Parse_def getlines_join_lines)
  have "ExtractValue (Trim l) 8 \<in> set (sitemaps (Parse stod fdiv content))"
    if "l \<in> set (getlines content)" "StartsWithCaseInsensitive (Trim l) ''sitemap:''"
      "ExtractValue (Trim l) 8 \<noteq> []" for l
    using foldl_sitemap [OF that] by (simp add: Parse_def Parse_lines_def)
  with eq show ?thesis by blast
qed

theorem Parse_drops_rules_before_first_user_agent_witness:
  "Parse (\<lambda>s. None) (\<lambda>a b. NaN)
     ''Disallow: /x\<newline>Sitemap: http://s\<newline>Crawl-delay: 5\<newline>User-agent: *\<newline>Disallow: /y''
   = Parse (\<lambda>s. None) (\<lambda>a b. NaN)
     ''Sitemap: http://s\<newline>User-agent: *\<newline>Disallow: /y\<newline>''"
proof -
  have d: "join_lines (drop_early_rules (getlines
      ''Disallow: /x\<newline>Sitemap: http://s\<newline>Crawl-delay: 5\<newline>User-agent: *\<newline>Disallow: /y''))
      = ''Sitemap: http://s\<newline>User-agent: *\<newline>Disallow: /y\<newline>''"
    by code_simp
  from Parse_drops_rules_before_first_user_agent [THEN conjunct1,
      of "\<lambda>s. None" "\<lambda>a b. NaN"
        "''Disallow: /x\<newline>Sitemap: http://s\<newline>Crawl-delay: 5\<newline>User-agent: *\<newline>Disallow: /y''"]
  show ?thesis
    unfolding d .
qed

section \<open>The binary heap of the priority queue\<close>

lemma is_heap_top:
  assumes "is_heap h n"
  shows "i < n \<Longrightarrow> earliest_fetch (h ! 0) \<le> earliest_fetch (h ! i)"
proof (induction i rule: less_induct)
  case (less i)
  show ?case
  proof (cases "i = 0")
    case True
    then show ?thesis by simp
  next
    case False
    then have p: "(i - 1) div 2 < i" by simp
    with less.prems have "(i - 1) div 2 < n" by simp
    with less.IH [OF p] have "earliest_fetch (h ! 0) \<le> earliest_fetch (h ! ((i - 1) div 2))" .
    also have "\<dots> \<le> earliest_fetch (h ! i)"
      using assms False less.prems by (simp add: is_heap_def)
    finally show ?thesis .
  qed
qed

lemma length_push_heap_loop [simp]: "length (push_heap_loop first hole topIndex v) = length first"
proof (induction hole arbitrary: first rule: less_induct)
  case (less hole)
  show ?case
  proof (cases "topIndex < hole \<and> entry_greater (first ! ((hole - 1) div 2)) v")
    case True
    then have "(hole - 1) div 2 < hole" by auto
    from less.IH [OF this] True show ?thesis
      by (subst push_heap_loop.simps) (simp add: Let_def)
  next
    case False
    then show ?thesis
      by (subst push_heap_loop.simps) (auto simp: Let_def)
  qed
qed

lemma push_heap_loop_above:
  "hole < j \<Longrightarrow> push_heap_loop first hole topIndex v ! j = first ! j"
proof (induction hole arbitrary: first rule: less_induct)
  case (less hole)
  show ?case
  proof (cases "topIndex < hole \<and> entry_greater (first ! ((hole - 1) div 2)) v")
    case True
    then have lt: "(hole - 1) div 2 < hole" by auto
    with less.prems have "(hole - 1) div 2 < j" by simp
    from less.IH [OF lt this] True less.prems show ?thesis
      by (subst push_heap_loop.simps) (simp add: Let_def)
  next
    case False
    with less.prems show ?thesis
      by (subst push_heap_loop.simps) (auto simp: Let_def)
  qed
qed

lemma mset_push_heap_loop:
  "hole < length first \<Longrightarrow> mset (push_heap_loop first hole topIndex v) = mset (first[hole := v])"
proof (induction hole arbitrary: first rule: less_induct)
  case (less hole)
  define p where "p = (hole - 1) div 2"
  show ?case
  proof (cases "topIndex < hole \<and> entry_greater (first ! p) v")
    case True
    then have lt: "p < hole" by (auto simp: p_def)
    with less.prems have pl: "p < length first" by simp
    define a where "a = first[hole := v]"
    have la: "p < length a" "hole < length a"
      using pl less.prems by (simp_all add: a_def)
    have "mset (push_heap_loop (first[hole := first ! p]) p topIndex v)
        = mset ((first[hole := first ! p])[p := v])"
      using less.IH [OF lt, of "first[hole := first ! p]"] pl by simp
    also have "(first[hole := first ! p])[p := v] = a[hole := a ! p, p := a ! hole]"
      using lt less.prems by (simp add: a_def)
    also have "mset \<dots> = mset a"
      using la by (rule mset_swap)
    finally have "mset (push_heap_loop (first[hole := first ! p]) p topIndex v) = mset (first[hole := v])"
      by (simp add: a_def)
    with True show ?thesis
      by (subst push_heap_loop.simps) (simp add: Let_def p_def)
  next
    case False
    then show ?thesis
      by (subst push_heap_loop.simps) (auto simp: Let_def p_def)
  qed
qed

lemma push_heap_loop_is_heap:
  "hole < n \<Longrightarrow> n \<le> length first \<Longrightarrow> heap_except first n hole \<Longrightarrow>
   (\<forall>i. 0 < i \<and> i < n \<and> (i - 1) div 2 = hole \<longrightarrow> earliest_fetch v \<le> earliest_fetch (first ! i)) \<Longrightarrow>
   is_heap (push_heap_loop first hole 0 v) n"
proof (induction hole arbitrary: first rule: less_induct)
  case (less hole)
  define p where "p = (hole - 1) div 2"
  have hl: "hole < length first" using less.prems by simp
  from less.prems(3) have
    edges: "\<And>i. 0 < i \<Longrightarrow> i < n \<Longrightarrow> i \<noteq> hole \<Longrightarrow> (i - 1) div 2 \<noteq> hole \<Longrightarrow>
        earliest_fetch (first ! ((i - 1) div 2)) \<le> earliest_fetch (first ! i)"
    and grand: "\<And>i. 0 < hole \<Longrightarrow> 0 < i \<Longrightarrow> i < n \<Longrightarrow> (i - 1) div 2 = hole \<Longrightarrow>
        earliest_fetch (first ! p) \<le> earliest_fetch (first ! i)"
    by (auto simp: heap_except_def p_def)
  from less.prems(4) have
    below: "\<And>i. 0 < i \<Longrightarrow> i < n \<Longrightarrow> (i - 1) div 2 = hole \<Longrightarrow>
        earliest_fetch v \<le> earliest_fetch (first ! i)"
    by auto
  show ?case
  proof (cases "0 < hole \<and> entry_greater (first ! p) v")
    case T: True
    then have h0: "0 < hole" and lt: "p < hole"
      and gt: "earliest_fetch v < earliest_fetch (first ! p)"
      by (auto simp: entry_greater_def p_def)
    define f where "f = first[hole := first ! p]"
    have fh: "f ! hole = first ! p" using hl by (simp add: f_def)
    have fo: "\<And>j. j \<noteq> hole \<Longrightarrow> f ! j = first ! j" by (simp add: f_def)
    have sib: "earliest_fetch (first ! p) \<le> earliest_fetch (first ! i)"
      if "0 < i" "i < n" "(i - 1) div 2 = p" "i \<noteq> hole" for i
    proof -
      from that(3) lt have "(i - 1) div 2 \<noteq> hole" by simp
      from edges [OF that(1,2,4) this] that(3) show ?thesis by simp
    qed
    have "is_heap (push_heap_loop f p 0 v) n"
    proof (rule less.IH [OF lt])
      show "p < n" using lt less.prems(1) by simp
      show "n \<le> length f" using less.prems(2) by (simp add: f_def)
      show "heap_except f n p"
        unfolding heap_except_def
      proof (intro conjI allI impI)
        fix i assume i: "0 < i \<and> i < n \<and> i \<noteq> p \<and> (i - 1) div 2 \<noteq> p"
        then have ih: "i \<noteq> hole" by (auto simp: p_def)
        show "earliest_fetch (f ! ((i - 1) div 2)) \<le> earliest_fetch (f ! i)"
        proof (cases "(i - 1) div 2 = hole")
          case True
          have "earliest_fetch (first ! p) \<le> earliest_fetch (first ! i)"
            using grand [OF h0 _ _ True] i by simp
          then show ?thesis
            using True fh fo [OF ih] by simp
        next
          case False
          have "earliest_fetch (first ! ((i - 1) div 2)) \<le> earliest_fetch (first ! i)"
            using edges [OF _ _ ih False] i by simp
          then show ?thesis
            using fo [OF ih] fo [OF False] by simp
        qed
      next
        fix i assume p0: "0 < p" and i: "0 < i \<and> i < n \<and> (i - 1) div 2 = p"
        define g where "g = (p - 1) div 2"
        have gl: "g < p" using p0 by (simp add: g_def)
        then have gh: "g \<noteq> hole" "p \<noteq> hole" using lt by auto
        have "earliest_fetch (first ! ((p - 1) div 2)) \<le> earliest_fetch (first ! p)"
        proof (rule edges [OF p0 _ gh(2)])
          show "p < n" using lt less.prems(1) by simp
          show "(p - 1) div 2 \<noteq> hole" using gh(1) by (simp add: g_def)
        qed
        then have gp: "earliest_fetch (first ! g) \<le> earliest_fetch (first ! p)"
          by (simp add: g_def)
        have "earliest_fetch (f ! g) \<le> earliest_fetch (f ! i)"
        proof (cases "i = hole")
          case True
          with gp fh fo [OF gh(1)] show ?thesis by simp
        next
          case False
          from sib [OF _ _ _ False] i have "earliest_fetch (first ! p) \<le> earliest_fetch (first ! i)"
            by simp
          with gp fo [OF gh(1)] fo [OF False] show ?thesis by simp
        qed
        then show "earliest_fetch (f ! ((p - 1) div 2)) \<le> earliest_fetch (f ! i)"
          by (simp add: g_def)
      qed
      show "\<forall>i. 0 < i \<and> i < n \<and> (i - 1) div 2 = p \<longrightarrow> earliest_fetch v \<le> earliest_fetch (f ! i)"
      proof (intro allI impI)
        fix i assume i: "0 < i \<and> i < n \<and> (i - 1) div 2 = p"
        show "earliest_fetch v \<le> earliest_fetch (f ! i)"
        proof (cases "i = hole")
          case True
          with fh gt show ?thesis by simp
        next
          case False
          from sib [OF _ _ _ False] i have "earliest_fetch (first ! p) \<le> earliest_fetch (first ! i)"
            by simp
          with gt fo [OF False] show ?thesis by simp
        qed
      qed
    qed
    with T show ?thesis
      by (subst push_heap_loop.simps) (simp add: Let_def p_def f_def)
  next
    case F: False
    have "is_heap (first[hole := v]) n"
      unfolding is_heap_def
    proof (intro allI impI)
      fix i assume i: "0 < i \<and> i < n"
      show "earliest_fetch (first[hole := v] ! ((i - 1) div 2)) \<le> earliest_fetch (first[hole := v] ! i)"
      proof (cases "i = hole")
        case True
        with i have ne: "p \<noteq> hole" and h0: "0 < hole" by (auto simp: p_def)
        from F h0 have "earliest_fetch (first ! p) \<le> earliest_fetch v"
          by (simp add: entry_greater_def)
        with ne hl True show ?thesis
          by (simp add: p_def)
      next
        case ih: False
        show ?thesis
        proof (cases "(i - 1) div 2 = hole")
          case True
          from below [OF _ _ True] i have "earliest_fetch v \<le> earliest_fetch (first ! i)" by simp
          with True ih hl show ?thesis by simp
        next
          case False
          from edges [OF _ _ ih False] i
          have "earliest_fetch (first ! ((i - 1) div 2)) \<le> earliest_fetch (first ! i)" by simp
          with False ih show ?thesis by simp
        qed
      qed
    qed
    with F show ?thesis
      by (subst push_heap_loop.simps) (auto simp: Let_def p_def)
  qed
qed
lemma child_cases: "0 < (i::nat) \<Longrightarrow> (i - 1) div 2 = h \<Longrightarrow> i = 2 * h + 1 \<or> i = 2 * h + 2"
  by arith

lemma adjust_heap_loop_inv:
  "heap_except first len hole \<Longrightarrow> len \<le> length first \<Longrightarrow> hole < len \<Longrightarrow>
   \<exists>first1 hole1. adjust_heap_loop first hole hole len = (first1, hole1, hole1)
     \<and> heap_except first1 len hole1 \<and> \<not> hole1 < (len - 1) div 2 \<and> hole1 < len
     \<and> length first1 = length first
     \<and> (\<forall>j. len \<le> j \<longrightarrow> first1 ! j = first ! j)
     \<and> (\<forall>x. mset (first1[hole1 := x]) = mset (first[hole := x]))"
proof (induction "len - hole" arbitrary: first hole rule: less_induct)
  case less
  show ?case
  proof (cases "hole < (len - 1) div 2")
    case False
    then have "adjust_heap_loop first hole hole len = (first, hole, hole)"
      by (subst adjust_heap_loop.simps) simp
    with False less.prems show ?thesis by simp
  next
    case True
    define l where "l = 2 * hole + 1"
    define r where "r = 2 * hole + 2"
    define c where "c = (if entry_greater (first ! r) (first ! l) then l else r)"
    define f where "f = first[hole := first ! c]"
    have rl: "r < len" "l < len" "hole < l" "hole < r" "l \<noteq> r"
      using True by (auto simp: l_def r_def)
    have c: "c = l \<or> c = r" by (simp add: c_def)
    then have cl: "c < len" "hole < c" "0 < c" "(c - 1) div 2 = hole"
      using rl by (auto simp: l_def r_def)
    have hl: "hole < length first" "c < length first"
      using less.prems cl by auto
    have fh: "f ! hole = first ! c" using hl by (simp add: f_def)
    have fo: "\<And>j. j \<noteq> hole \<Longrightarrow> f ! j = first ! j" by (simp add: f_def)
    from less.prems(1) have
      edges: "\<And>i. 0 < i \<Longrightarrow> i < len \<Longrightarrow> i \<noteq> hole \<Longrightarrow> (i - 1) div 2 \<noteq> hole \<Longrightarrow>
          earliest_fetch (first ! ((i - 1) div 2)) \<le> earliest_fetch (first ! i)"
      and grand: "\<And>i. 0 < hole \<Longrightarrow> 0 < i \<Longrightarrow> i < len \<Longrightarrow> (i - 1) div 2 = hole \<Longrightarrow>
          earliest_fetch (first ! ((hole - 1) div 2)) \<le> earliest_fetch (first ! i)"
      by (auto simp: heap_except_def)
    have small: "earliest_fetch (first ! c) \<le> earliest_fetch (first ! l)"
      "earliest_fetch (first ! c) \<le> earliest_fetch (first ! r)"
      by (auto simp: c_def entry_greater_def)
    have he: "heap_except f len c"
      unfolding heap_except_def
    proof (intro conjI allI impI)
      fix i assume i: "0 < i \<and> i < len \<and> i \<noteq> c \<and> (i - 1) div 2 \<noteq> c"
      show "earliest_fetch (f ! ((i - 1) div 2)) \<le> earliest_fetch (f ! i)"
      proof (cases "i = hole")
        case True
        with i have h0: "0 < hole" and ph: "(hole - 1) div 2 \<noteq> hole" by auto
        from grand [OF h0 cl(3) cl(1) cl(4)] True fh fo [OF ph] show ?thesis by simp
      next
        case ih: False
        show ?thesis
        proof (cases "(i - 1) div 2 = hole")
          case True
          with i have "i = l \<or> i = r"
            using child_cases [of i hole] by (simp add: l_def r_def)
          with small have "earliest_fetch (first ! c) \<le> earliest_fetch (first ! i)" by auto
          with True fh fo [OF ih] show ?thesis by simp
        next
          case False
          from edges [OF _ _ ih False] i
          have "earliest_fetch (first ! ((i - 1) div 2)) \<le> earliest_fetch (first ! i)" by simp
          with fo [OF ih] fo [OF False] show ?thesis by simp
        qed
      qed
    next
      fix i assume i: "0 < i \<and> i < len \<and> (i - 1) div 2 = c"
      with cl(2) have ih: "i \<noteq> hole" and pi: "(i - 1) div 2 \<noteq> hole" by auto
      from edges [OF _ _ ih pi] i
      have "earliest_fetch (first ! c) \<le> earliest_fetch (first ! i)" by simp
      with cl(4) fh fo [OF ih] show "earliest_fetch (f ! ((c - 1) div 2)) \<le> earliest_fetch (f ! i)"
        by simp
    qed
    have m: "len - c < len - hole" using cl less.prems(3) by simp
    have lf: "len \<le> length f" using less.prems(2) by (simp add: f_def)
    from less.hyps [OF m he lf cl(1)] obtain first1 hole1 where
      r1: "adjust_heap_loop f c c len = (first1, hole1, hole1)"
      and r2: "heap_except first1 len hole1" "\<not> hole1 < (len - 1) div 2" "hole1 < len"
      and r3: "length first1 = length f"
      and r4: "\<And>j. len \<le> j \<Longrightarrow> first1 ! j = f ! j"
      and r5: "\<And>x. mset (first1[hole1 := x]) = mset (f[c := x])"
      by blast
    have "adjust_heap_loop first hole hole len = adjust_heap_loop f c c len"
      using True
      by (subst adjust_heap_loop.simps) (auto simp: Let_def c_def f_def l_def r_def)
    with r1 have eq: "adjust_heap_loop first hole hole len = (first1, hole1, hole1)"
      by simp
    have above: "first1 ! j = first ! j" if "len \<le> j" for j
      using r4 [OF that] that less.prems(3) by (simp add: f_def)
    have ms: "mset (first1[hole1 := x]) = mset (first[hole := x])" for x
    proof -
      define a where "a = first[hole := x]"
      have la: "c < length a" "hole < length a" using hl by (simp_all add: a_def)
      have "f[c := x] = a[hole := a ! c, c := a ! hole]"
        using cl(2) hl by (simp add: f_def a_def)
      also have "mset \<dots> = mset a" using la by (rule mset_swap)
      finally show ?thesis using r5 [of x] by (simp add: a_def)
    qed
    from eq r2 r3 above ms show ?thesis
      by (simp add: f_def)
  qed
qed

lemma adjust_heap_top:
  assumes "is_heap first len" and "len \<le> length first" and "0 < len"
  shows "is_heap (adjust_heap first 0 len v) len"
    and "length (adjust_heap first 0 len v) = length first"
    and "\<forall>j. len \<le> j \<longrightarrow> adjust_heap first 0 len v ! j = first ! j"
    and "mset (adjust_heap first 0 len v) = mset (first[0 := v])"
proof -
  have "heap_except first len 0"
    using assms(1) by (simp add: heap_except_def is_heap_def)
  from adjust_heap_loop_inv [OF this assms(2,3)] obtain first1 hole1 where
    r1: "adjust_heap_loop first 0 0 len = (first1, hole1, hole1)"
    and r2: "heap_except first1 len hole1" "\<not> hole1 < (len - 1) div 2" "hole1 < len"
    and r3: "length first1 = length first"
    and r4: "\<And>j. len \<le> j \<Longrightarrow> first1 ! j = first ! j"
    and r5: "\<And>x. mset (first1[hole1 := x]) = mset (first[0 := x])"
    by blast
  from r2(1) have
    edges: "\<And>i. 0 < i \<Longrightarrow> i < len \<Longrightarrow> i \<noteq> hole1 \<Longrightarrow> (i - 1) div 2 \<noteq> hole1 \<Longrightarrow>
        earliest_fetch (first1 ! ((i - 1) div 2)) \<le> earliest_fetch (first1 ! i)"
    and grand: "\<And>i. 0 < hole1 \<Longrightarrow> 0 < i \<Longrightarrow> i < len \<Longrightarrow> (i - 1) div 2 = hole1 \<Longrightarrow>
        earliest_fetch (first1 ! ((hole1 - 1) div 2)) \<le> earliest_fetch (first1 ! i)"
    by (auto simp: heap_except_def)
  have l1: "len \<le> length first1" "hole1 < length first1"
    using r3 assms(2) r2(3) by auto
  have "is_heap (adjust_heap first 0 len v) len
      \<and> length (adjust_heap first 0 len v) = length first
      \<and> (\<forall>j. len \<le> j \<longrightarrow> adjust_heap first 0 len v ! j = first ! j)
      \<and> mset (adjust_heap first 0 len v) = mset (first[0 := v])" (is ?goal)
  proof (cases "len mod 2 = 0 \<and> 2 \<le> len \<and> hole1 = (len - 2) div 2")
    case True
    define c where "c = len - 1"
    define f where "f = first1[hole1 := first1 ! c]"
    have c: "c = 2 * (hole1 + 1) - 1" "c < len" "hole1 < c" "0 < c" "(c - 1) div 2 = hole1"
      using True by (auto simp: c_def)
    have fh: "f ! hole1 = first1 ! c" using l1 by (simp add: f_def)
    have fo: "\<And>j. j \<noteq> hole1 \<Longrightarrow> f ! j = first1 ! j" by (simp add: f_def)
    have only: "i = c" if "0 < i" "i < len" "(i - 1) div 2 = hole1" for i
      using child_cases [OF that(1,3)] that(2) True by (auto simp: c_def)
    have leaf: "(i - 1) div 2 \<noteq> c" if "0 < i" "i < len" for i
      using that by (auto simp: c_def)
    have he: "heap_except f len c"
      unfolding heap_except_def
    proof (intro conjI allI impI)
      fix i assume i: "0 < i \<and> i < len \<and> i \<noteq> c \<and> (i - 1) div 2 \<noteq> c"
      then have pi: "(i - 1) div 2 \<noteq> hole1" using only [of i] by auto
      show "earliest_fetch (f ! ((i - 1) div 2)) \<le> earliest_fetch (f ! i)"
      proof (cases "i = hole1")
        case True
        with i have h0: "0 < hole1" by simp
        from grand [OF h0 c(4) c(2) c(5)] True fh fo [OF pi] show ?thesis by simp
      next
        case False
        from edges [OF _ _ False pi] i
        have "earliest_fetch (first1 ! ((i - 1) div 2)) \<le> earliest_fetch (first1 ! i)" by simp
        with fo [OF False] fo [OF pi] show ?thesis by simp
      qed
    next
      fix i assume "0 < i \<and> i < len \<and> (i - 1) div 2 = c"
      with leaf [of i] show "earliest_fetch (f ! ((c - 1) div 2)) \<le> earliest_fetch (f ! i)"
        by simp
    qed
    have lf: "len \<le> length f" "c < length f" using l1 c(2) by (simp_all add: f_def)
    have v: "\<forall>i. 0 < i \<and> i < len \<and> (i - 1) div 2 = c \<longrightarrow> earliest_fetch v \<le> earliest_fetch (f ! i)"
      using leaf by blast
    have eq: "adjust_heap first 0 len v = push_heap_loop f c 0 v"
      using True r1 by (simp add: adjust_heap_def f_def c(1))
    have ms: "mset (f[c := v]) = mset (first[0 := v])"
    proof -
      define a where "a = first1[hole1 := v]"
      have la: "c < length a" "hole1 < length a" using l1 c(2) by (simp_all add: a_def)
      have "f[c := v] = a[hole1 := a ! c, c := a ! hole1]"
        using c(3) l1 by (simp add: f_def a_def)
      also have "mset \<dots> = mset a" using la by (rule mset_swap)
      finally show ?thesis using r5 [of v] by (simp add: a_def)
    qed
    have ab: "push_heap_loop f c 0 v ! j = first ! j" if "len \<le> j" for j
    proof -
      from that c(2) have "c < j" by simp
      then have "push_heap_loop f c 0 v ! j = f ! j" by (rule push_heap_loop_above)
      also have "\<dots> = first ! j" using that r4 [OF that] r2(3) by (simp add: f_def)
      finally show ?thesis .
    qed
    show ?thesis
      unfolding eq
      using push_heap_loop_is_heap [OF c(2) lf(1) he v] mset_push_heap_loop [OF lf(2), of 0 v] ms ab r3
      by (simp add: f_def)
  next
    case False
    have leaf: "(i - 1) div 2 \<noteq> hole1" if "0 < i" "i < len" for i
      using that r2(2) False by presburger
    have v: "\<forall>i. 0 < i \<and> i < len \<and> (i - 1) div 2 = hole1 \<longrightarrow> earliest_fetch v \<le> earliest_fetch (first1 ! i)"
      using leaf by blast
    have eq: "adjust_heap first 0 len v = push_heap_loop first1 hole1 0 v"
      using False r1 by (auto simp: adjust_heap_def)
    have ab: "push_heap_loop first1 hole1 0 v ! j = first ! j" if "len \<le> j" for j
    proof -
      from that r2(3) have "hole1 < j" by simp
      then have "push_heap_loop first1 hole1 0 v ! j = first1 ! j" by (rule push_heap_loop_above)
      with r4 [OF that] show ?thesis by simp
    qed
    show ?thesis
      unfolding eq
      using push_heap_loop_is_heap [OF r2(3) l1(1) r2(1) v] mset_push_heap_loop [OF l1(2), of 0 v]
        r5 [of v] ab r3
      by simp
  qed
  then show "is_heap (adjust_heap first 0 len v) len"
    and "length (adjust_heap first 0 len v) = length first"
    and "\<forall>j. len \<le> j \<longrightarrow> adjust_heap first 0 len v ! j = first ! j"
    and "mset (adjust_heap first 0 len v) = mset (first[0 := v])"
    by blast+
qed

lemma pq_push_heap:
  assumes "is_heap c (length c)"
  shows "is_heap (pq_push c x) (length (pq_push c x))"
    and "mset (pq_push c x) = add_mset x (mset c)"
    and "length (pq_push c x) = Suc (length c)"
proof -
  define n where "n = length c"
  have eq: "pq_push c x = push_heap_loop (c @ [x]) n 0 x"
    by (simp add: pq_push_def push_heap_def n_def)
  have he: "heap_except (c @ [x]) (Suc n) n"
    unfolding heap_except_def
  proof (intro conjI allI impI)
    fix i assume i: "0 < i \<and> i < Suc n \<and> i \<noteq> n \<and> (i - 1) div 2 \<noteq> n"
    then have "i < n" "(i - 1) div 2 < n" by auto
    with assms i show "earliest_fetch ((c @ [x]) ! ((i - 1) div 2)) \<le> earliest_fetch ((c @ [x]) ! i)"
      by (simp add: nth_append is_heap_def n_def)
  next
    fix i assume "0 < n" and "0 < i \<and> i < Suc n \<and> (i - 1) div 2 = n"
    then have False by presburger
    then show "earliest_fetch ((c @ [x]) ! ((n - 1) div 2)) \<le> earliest_fetch ((c @ [x]) ! i)" ..
  qed
  have v: "\<forall>i. 0 < i \<and> i < Suc n \<and> (i - 1) div 2 = n \<longrightarrow> earliest_fetch x \<le> earliest_fetch ((c @ [x]) ! i)"
    by presburger
  have "is_heap (push_heap_loop (c @ [x]) n 0 x) (Suc n)"
    by (rule push_heap_loop_is_heap [OF _ _ he v]) (simp_all add: n_def)
  then show "is_heap (pq_push c x) (length (pq_push c x))"
    by (simp add: eq n_def)
  have "mset (push_heap_loop (c @ [x]) n 0 x) = mset ((c @ [x])[n := x])"
    by (rule mset_push_heap_loop) (simp add: n_def)
  then show "mset (pq_push c x) = add_mset x (mset c)"
    by (simp add: eq n_def)
  show "length (pq_push c x) = Suc (length c)"
    by (simp add: eq)
qed

lemma pq_pop_heap:
  assumes "is_heap c (length c)" and "c \<noteq> []"
  shows "is_heap (pq_pop c) (length (pq_pop c))"
    and "mset (pq_pop c) = mset c - {#c ! 0#}"
proof -
  have "is_heap (pq_pop c) (length (pq_pop c)) \<and> mset (pq_pop c) = mset c - {#c ! 0#}"
  proof (cases "1 < length c")
    case False
    with assms(2) have "length c = 1" by (cases c) auto
    then obtain x where "c = [x]" by (cases c) auto
    then show ?thesis
      by (simp add: pq_pop_def pop_heap_def is_heap_def)
  next
    case True
    define n where "n = length c - 1"
    define c' where "c' = c[n := c ! 0]"
    define r where "r = adjust_heap c' 0 n (c ! n)"
    have n: "0 < n" "n < length c" "length c = Suc n" using True by (auto simp: n_def)
    have eq: "pq_pop c = butlast r"
      using True by (simp add: pq_pop_def pop_heap_def r_def c'_def n_def)
    have h': "is_heap c' n"
      using assms(1) n by (auto simp: is_heap_def c'_def)
    have l': "n \<le> length c'" using n by (simp add: c'_def)
    from adjust_heap_top [OF h' l' n(1), of "c ! n"] have
      rh: "is_heap r n" and rl: "length r = length c'" and ra: "r ! n = c' ! n"
      and rm: "mset r = mset (c'[0 := c ! n])"
      by (simp_all add: r_def)
    have lr: "length r = Suc n" using rl n by (simp add: c'_def)
    then have rne: "r \<noteq> []" by auto
    have last: "last r = c ! 0"
      using ra lr n rne by (simp add: last_conv_nth c'_def)
    have "mset (c'[0 := c ! n]) = mset c"
      unfolding c'_def using n(2) assms(2) by (intro mset_swap) simp_all
    with rm have "mset r = mset c" by simp
    moreover have "mset r = add_mset (last r) (mset (butlast r))"
    proof -
      have "mset r = mset (butlast r @ [last r])" using rne by simp
      also have "\<dots> = add_mset (last r) (mset (butlast r))" by simp
      finally show ?thesis .
    qed
    ultimately have "mset c = add_mset (c ! 0) (mset (butlast r))"
      using last by simp
    then have m: "mset (butlast r) = mset c - {#c ! 0#}"
      by simp
    have "is_heap (butlast r) (length (butlast r))"
      using rh lr by (auto simp: is_heap_def nth_butlast)
    with m eq show ?thesis by simp
  qed
  then show "is_heap (pq_pop c) (length (pq_pop c))" and "mset (pq_pop c) = mset c - {#c ! 0#}"
    by simp_all
qed

section \<open>The URL queue\<close>

lemma queue_inv_step: "queue_inv q \<Longrightarrow> queue_inv (queue_step q op)"
proof (cases op)
  case (OpPush e)
  assume "queue_inv q"
  then show ?thesis
    using OpPush pq_push_heap(1) [of "queue_m q" e] by (simp add: queue_inv_def Push_def)
next
  case OpTryPop
  assume "queue_inv q"
  then show ?thesis
    using OpTryPop pq_pop_heap(1) [of "queue_m q"]
    by (cases "queue_m q = []") (simp_all add: queue_inv_def TryPop_def)
next
  case (OpWaitAndPop time_out)
  assume "queue_inv q"
  then show ?thesis
    using OpWaitAndPop pq_pop_heap(1) [of "queue_m q"]
    by (cases "queue_m q = []") (simp_all add: queue_inv_def WaitAndPop_def wait_for_def wait_pred_def)
next
  case OpShutdown
  assume "queue_inv q"
  then show ?thesis
    using OpShutdown by (simp add: queue_inv_def Shutdown_def)
qed

lemma queue_inv_run: "queue_inv q \<Longrightarrow> queue_inv (queue_run q ops)"
  unfolding queue_run_def
  by (induction ops arbitrary: q) (simp_all add: queue_inv_step)

lemma queue_inv_empty: "queue_inv empty_queue"
  by (simp add: queue_inv_def empty_queue_def is_heap_def)



text \<open>
  Before \<^verbatim>\<open>Shutdown\<close>, a thread in \<^verbatim>\<open>WaitAndPop\<close> on an empty queue waits, and returns
  \<^verbatim>\<open>false\<close> when its time is out.
\<close>

lemma WaitAndPop_before_Shutdown:
  assumes "\<not> shutdown_m q" and "queue_m q = []"
  shows "WaitAndPop False q = (Pop_waits, q)" and "WaitAndPop True q = (Pop_returns None, q)"
  using assms by (simp_all add: WaitAndPop_def wait_for_def wait_pred_def)




text \<open>
  Claim C6, as the code has it. After any sequence of calls on a new queue, a pop on a
  non-empty queue returns an entry of the queue whose \<^verbatim>\<open>earliest_fetch\<close> is minimal among
  the entries in the queue and removes that entry, and a push adds its entry. Nothing
  is promised on the order of entries with equal times.
\<close>

theorem pop_returns_earliest:
  assumes "q = queue_run empty_queue ops" and "queue_m q \<noteq> []"
  shows "\<exists>e. fst (TryPop q) = Some e
      \<and> (\<forall>time_out. WaitAndPop time_out q = (Pop_returns (fst (TryPop q)), snd (TryPop q)))
      \<and> e \<in> set (queue_m q)
      \<and> (\<forall>x \<in> set (queue_m q). earliest_fetch e \<le> earliest_fetch x)
      \<and> mset (queue_m (snd (TryPop q))) = mset (queue_m q) - {#e#}
      \<and> (\<forall>x. mset (queue_m (Push q x)) = add_mset x (mset (queue_m q)))"
proof -
  have inv: "is_heap (queue_m q) (length (queue_m q))"
    using queue_inv_run [OF queue_inv_empty, of ops] assms(1) by (simp add: queue_inv_def)
  define e where "e = queue_m q ! 0"
  have 1: "fst (TryPop q) = Some e"
    "WaitAndPop time_out q = (Pop_returns (fst (TryPop q)), snd (TryPop q))" for time_out
    using assms(2) by (simp_all add: TryPop_def WaitAndPop_def wait_for_def wait_pred_def e_def)
  have 2: "e \<in> set (queue_m q)"
    using assms(2) by (simp add: e_def)
  have 3: "earliest_fetch e \<le> earliest_fetch x" if "x \<in> set (queue_m q)" for x
  proof -
    from that obtain i where "i < length (queue_m q)" "x = queue_m q ! i"
      by (auto simp: in_set_conv_nth)
    with is_heap_top [OF inv, of i] show ?thesis by (simp add: e_def)
  qed
  have 4: "mset (queue_m (snd (TryPop q))) = mset (queue_m q) - {#e#}"
    using pq_pop_heap(2) [OF inv assms(2)] assms(2) by (simp add: TryPop_def e_def)
  have 5: "mset (queue_m (Push q x)) = add_mset x (mset (queue_m q))" for x
    using pq_push_heap(2) [OF inv, of x] by (simp add: Push_def)
  from 1 2 3 4 5 show ?thesis by blast
qed

theorem pop_returns_earliest_witness:
  "\<exists>e. fst (TryPop (queue_run empty_queue
        [OpPush \<lparr>url = ''a'', retry_count = 0, is_update = False, earliest_fetch = 5\<rparr>,
         OpPush \<lparr>url = ''b'', retry_count = 0, is_update = False, earliest_fetch = 3\<rparr>])) = Some e
     \<and> earliest_fetch e \<le> 3"
proof -
  define q where "q = queue_run empty_queue
        [OpPush \<lparr>url = ''a'', retry_count = 0, is_update = False, earliest_fetch = 5\<rparr>,
         OpPush \<lparr>url = ''b'', retry_count = 0, is_update = False, earliest_fetch = 3\<rparr>]"
  have s: "queue_m q = [\<lparr>url = ''b'', retry_count = 0, is_update = False, earliest_fetch = 3\<rparr>,
      \<lparr>url = ''a'', retry_count = 0, is_update = False, earliest_fetch = 5\<rparr>]"
    unfolding q_def by code_simp
  then have ne: "queue_m q \<noteq> []" by simp
  from pop_returns_earliest [OF q_def ne] obtain e where
    e: "fst (TryPop q) = Some e" "\<forall>x \<in> set (queue_m q). earliest_fetch e \<le> earliest_fetch x"
    by blast
  from e(2) have "earliest_fetch e \<le> 3"
    unfolding s by simp
  with e(1) show ?thesis
    unfolding q_def by blast
qed

text \<open>
  The claim as stated fails: of four entries pushed with the same time, the third is
  popped before the second.
\<close>

theorem pop_not_FIFO_counterexample:
  "map url (pop_all 4 (queue_run empty_queue
     [OpPush \<lparr>url = ''a'', retry_count = 0, is_update = False, earliest_fetch = 0\<rparr>,
      OpPush \<lparr>url = ''b'', retry_count = 0, is_update = False, earliest_fetch = 0\<rparr>,
      OpPush \<lparr>url = ''c'', retry_count = 0, is_update = False, earliest_fetch = 0\<rparr>,
      OpPush \<lparr>url = ''d'', retry_count = 0, is_update = False, earliest_fetch = 0\<rparr>]))
   = [''a'', ''c'', ''b'', ''d'']"
  by code_simp

section \<open>Sitemap parser\<close>





























section \<open>The robots step of the fetch pipeline\<close>

lemma fetch_pipeline_url: "r \<in> set (fetch_pipeline opts rules later_steps u path) \<Longrightarrow> rec_url r = u"
  by (auto simp: fetch_pipeline_def split: if_splits)

lemma crawl_rows_iff:
  "r \<in> set (crawl_rows opts rules_of path_of later_steps us)
     \<longleftrightarrow> (\<exists>u \<in> set us. r \<in> set (fetch_pipeline opts (rules_of u) later_steps u (path_of u)))"
  by (auto simp: crawl_rows_def)

text \<open>
  Claim C2. For a URL of the crawl that robots.txt disallows while
  \<^verbatim>\<open>respect_robots_txt\<close> is on: with \<^verbatim>\<open>log_skipped\<close> on, which is its default, the crawl
  emits a row for the URL with the status -1, and every row of the URL has this status;
  with \<^verbatim>\<open>log_skipped\<close> off the crawl emits no row for the URL.
\<close>

theorem robots_disallow_row:
  assumes "u \<in> set us" and "respect_robots_txt opts"
    and "\<not> IsAllowed (rules_of u) (path_of u)"
  shows "log_skipped default_options
    \<and> (log_skipped opts \<longrightarrow>
         \<lparr>rec_url = u, http_status = - 1, error_type = ROBOTS_DISALLOWED\<rparr>
           \<in> set (crawl_rows opts rules_of path_of later_steps us)
         \<and> (\<forall>r \<in> set (crawl_rows opts rules_of path_of later_steps us).
              rec_url r = u \<longrightarrow> http_status r = - 1))
    \<and> (\<not> log_skipped opts \<longrightarrow>
         (\<forall>r \<in> set (crawl_rows opts rules_of path_of later_steps us). rec_url r \<noteq> u))"
proof -
  have own: "fetch_pipeline opts (rules_of u) later_steps u (path_of u)
      = (if log_skipped opts
         then [\<lparr>rec_url = u, http_status = - 1, error_type = ROBOTS_DISALLOWED\<rparr>] else [])"
    using assms(2,3) by (simp add: fetch_pipeline_def)
  have rows: "r \<in> set (fetch_pipeline opts (rules_of u) later_steps u (path_of u))"
    if "r \<in> set (crawl_rows opts rules_of path_of later_steps us)" "rec_url r = u" for r
  proof -
    from that(1) obtain v where v: "v \<in> set us"
      "r \<in> set (fetch_pipeline opts (rules_of v) later_steps v (path_of v))"
      by (auto simp: crawl_rows_iff)
    from fetch_pipeline_url [OF v(2)] that(2) have "v = u" by simp
    with v(2) show ?thesis by simp
  qed
  have 1: "log_skipped default_options"
    by (simp add: default_options_def)
  have 2: "\<lparr>rec_url = u, http_status = - 1, error_type = ROBOTS_DISALLOWED\<rparr>
      \<in> set (crawl_rows opts rules_of path_of later_steps us)" if "log_skipped opts"
    unfolding crawl_rows_iff using that assms(1) own by (intro bexI [of _ u]) simp_all
  have 3: "http_status r = - 1"
    if "log_skipped opts" "r \<in> set (crawl_rows opts rules_of path_of later_steps us)" "rec_url r = u" for r
    using rows [OF that(2,3)] that(1) own by simp
  have 4: "rec_url r \<noteq> u"
    if "\<not> log_skipped opts" "r \<in> set (crawl_rows opts rules_of path_of later_steps us)" for r
    using rows [OF that(2)] that(1) own by auto
  from 1 2 3 4 show ?thesis by blast
qed

theorem robots_disallow_row_witness:
  "crawl_rows default_options (\<lambda>u. RobotsRules_default\<lparr>disallow := [''/private'']\<rparr>) (drop 9)
      (\<lambda>u. [\<lparr>rec_url = u, http_status = 200, error_type = NONE\<rparr>])
      [''https://h/private/x'', ''https://h/public'']
     = [\<lparr>rec_url = ''https://h/private/x'', http_status = - 1, error_type = ROBOTS_DISALLOWED\<rparr>,
        \<lparr>rec_url = ''https://h/public'', http_status = 200, error_type = NONE\<rparr>]
   \<and> \<lparr>rec_url = ''https://h/private/x'', http_status = - 1, error_type = ROBOTS_DISALLOWED\<rparr>
       \<in> set (crawl_rows default_options (\<lambda>u. RobotsRules_default\<lparr>disallow := [''/private'']\<rparr>) (drop 9)
           (\<lambda>u. [\<lparr>rec_url = u, http_status = 200, error_type = NONE\<rparr>])
           [''https://h/private/x'', ''https://h/public''])"
proof -
  have h1: "''https://h/private/x'' \<in> set [''https://h/private/x'', ''https://h/public'']"
    by simp
  have h2: "respect_robots_txt default_options"
    by (simp add: default_options_def)
  have h3: "\<not> IsAllowed ((\<lambda>u. RobotsRules_default\<lparr>disallow := [''/private'']\<rparr>) ''https://h/private/x'')
      (drop 9 ''https://h/private/x'')"
    by code_simp
  have ev: "crawl_rows default_options (\<lambda>u. RobotsRules_default\<lparr>disallow := [''/private'']\<rparr>) (drop 9)
      (\<lambda>u. [\<lparr>rec_url = u, http_status = 200, error_type = NONE\<rparr>])
      [''https://h/private/x'', ''https://h/public'']
     = [\<lparr>rec_url = ''https://h/private/x'', http_status = - 1, error_type = ROBOTS_DISALLOWED\<rparr>,
        \<lparr>rec_url = ''https://h/public'', http_status = 200, error_type = NONE\<rparr>]"
    by code_simp
  have l: "log_skipped default_options"
    by (simp add: default_options_def)
  note t = robots_disallow_row [where u = "''https://h/private/x''"
      and us = "[''https://h/private/x'', ''https://h/public'']" and opts = default_options
      and rules_of = "\<lambda>u. RobotsRules_default\<lparr>disallow := [''/private'']\<rparr>" and path_of = "drop 9"
      and later_steps = "\<lambda>u. [\<lparr>rec_url = u, http_status = 200, error_type = NONE\<rparr>]"]
  from t [OF h1 h2 h3] l ev show ?thesis
    by simp
qed

end
